theory Spec2Isabelle
  imports Complex_Main "HOL-Library.Word"
begin

section \<open>The PCK scanner of \<open>PCKParser\<close>, embedded\<close>

text \<open>
  The buffer \<open>self.data\<close> is a list of bytes. Offsets into it are naturals; Python
  integers that may go below zero (\<open>len(self.data) - 4\<close>, \<open>(XX - 2) * 3\<close>) are
  \<open>int\<close>. The random display colour of a group, its hexadecimal dumps and the
  diagnostic printing carry no information of their own and are left out.
\<close>

type_synonym u8 = "8 word"

type_synonym vertex = "int \<times> int \<times> int"

datatype pattern_name = pattern1 | pattern2

fun prefix :: "pattern_name \<Rightarrow> u8 list" where
  "prefix pattern1 = [0xEE, 0x00]"
| "prefix pattern2 = [0x1B, 0x02]"

fun faces_prefix :: "pattern_name \<Rightarrow> u8 list" where
  "faces_prefix pattern1 = [0x9A, 0x00]"
| "faces_prefix pattern2 = [0xC7, 0x01]"

fun uv_prefix :: "pattern_name \<Rightarrow> u8 list" where
  "uv_prefix pattern1 = [0xC4, 0x00]"
| "uv_prefix pattern2 = [0xF1, 0x01]"

text \<open>The dictionary \<open>patterns\<close> is iterated in insertion order.\<close>

definition patterns :: "pattern_name list" where
  "patterns = [pattern1, pattern2]"

text \<open>
  Every message that \<open>self.error_message\<close> can hold, one constructor per message.
\<close>

datatype error =
    ReadError
  | CorruptedVertices
  | VertexParseError
  | CorruptedUVs
  | UVParseError
  | FacePatternNotFound
  | CorruptedFaces
  | FaceParseError
  | InvalidFaceFormat

text \<open>
  An element of a face list. The scanner only ever appends dictionaries with the
  keys \<open>indices\<close> and \<open>byte\<close>; \<open>parse\<close> nevertheless tests
  \<open>isinstance(face, dict) and 'indices' in face\<close>, so anything else is \<open>NotAFace\<close>.
\<close>

datatype face = Face (indices: "int \<times> int \<times> int") (byte: nat) | NotAFace

record group =
  pattern :: pattern_name
  start :: nat
  XX :: nat
  vertices :: "vertex list"
  active_faces :: "face list"
  inactive_faces :: "face list"
  uvs :: "(int \<times> int) list"
  vertices_offset :: nat
  vertices_end :: nat
  uvs_span :: "(nat \<times> nat) option"
  faces_offset :: nat
  faces_end :: int

subsection \<open>\<open>struct.unpack_from\<close>, \<open>range\<close> and \<open>bytes.find\<close>\<close>

text \<open>A signed 16-bit little-endian integer from its two bytes.\<close>

definition le_i16 :: "u8 \<Rightarrow> u8 \<Rightarrow> int" where
  "le_i16 lo hi =
     (let u = int (unat lo) + 256 * int (unat hi)
      in if u \<ge> 32768 then u - 65536 else u)"

text \<open>\<open>struct.unpack_from\<close> raises \<open>struct.error\<close> (here \<open>None\<close>) when the
  buffer does not hold the whole record at the offset.\<close>

definition unpack_hhh :: "u8 list \<Rightarrow> nat \<Rightarrow> vertex option" where
  "unpack_hhh data off =
     (if off + 6 \<le> length data
      then Some (le_i16 (data ! off) (data ! (off + 1)),
                 le_i16 (data ! (off + 2)) (data ! (off + 3)),
                 le_i16 (data ! (off + 4)) (data ! (off + 5)))
      else None)"

definition unpack_hh :: "u8 list \<Rightarrow> nat \<Rightarrow> (int \<times> int) option" where
  "unpack_hh data off =
     (if off + 4 \<le> length data
      then Some (le_i16 (data ! off) (data ! (off + 1)),
                 le_i16 (data ! (off + 2)) (data ! (off + 3)))
      else None)"

definition unpack_BBB :: "u8 list \<Rightarrow> nat \<Rightarrow> (nat \<times> nat \<times> nat) option" where
  "unpack_BBB data off =
     (if off + 3 \<le> length data
      then Some (unat (data ! off), unat (data ! (off + 1)), unat (data ! (off + 2)))
      else None)"

text \<open>\<open>range(0, stop, step)\<close> for a positive step; empty when \<open>stop \<le> 0\<close>.\<close>

definition py_range :: "int \<Rightarrow> nat \<Rightarrow> nat list" where
  "py_range stop step =
     map (\<lambda>k. k * step) [0 ..< nat ((stop + int step - 1) div int step)]"

text \<open>\<open>data.find(sub, start)\<close>: the lowest offset from \<open>start\<close> on at which
  \<open>sub\<close> occurs, \<open>None\<close> for Python's \<open>-1\<close>.\<close>

definition occurs_at :: "u8 list \<Rightarrow> u8 list \<Rightarrow> nat \<Rightarrow> bool" where
  "occurs_at data sub p = (take (length sub) (drop p data) = sub)"

definition find_bytes :: "u8 list \<Rightarrow> u8 list \<Rightarrow> nat \<Rightarrow> nat option" where
  "find_bytes data sub start_pos =
     List.find (occurs_at data sub) [start_pos ..< Suc (length data - length sub)]"

subsection \<open>The three record loops\<close>

fun vertices_loop :: "u8 list \<Rightarrow> nat \<Rightarrow> nat list \<Rightarrow> vertex list \<Rightarrow> error + vertex list" where
  "vertices_loop data vertices_start [] vs = Inr vs"
| "vertices_loop data vertices_start (j # js) vs =
     (case unpack_hhh data (vertices_start + j) of
        None \<Rightarrow> Inl VertexParseError
      | Some v \<Rightarrow> vertices_loop data vertices_start js (vs @ [v]))"

fun uvs_loop :: "u8 list \<Rightarrow> nat \<Rightarrow> nat list \<Rightarrow> (int \<times> int) list \<Rightarrow> error + (int \<times> int) list" where
  "uvs_loop data uv_start [] us = Inr us"
| "uvs_loop data uv_start (j # js) us =
     (case unpack_hh data (uv_start + j) of
        None \<Rightarrow> Inl UVParseError
      | Some uv \<Rightarrow> uvs_loop data uv_start js (us @ [uv]))"

fun faces_loop ::
  "u8 list \<Rightarrow> nat \<Rightarrow> nat \<Rightarrow> nat list \<Rightarrow> face list \<times> face list \<Rightarrow> error + face list \<times> face list" where
  "faces_loop data faces_start xx [] (act, inact) = Inr (act, inact)"
| "faces_loop data faces_start xx (j # js) (act, inact) =
     (case unpack_BBB data (faces_start + j) of
        None \<Rightarrow> Inl FaceParseError
      | Some (val, _, _) \<Rightarrow>
          (let face_idx = int (j div 3) + 1;
               v1 = face_idx;
               v2 = face_idx + 1;
               v3 = face_idx + 2
           in if v3 > int xx then faces_loop data faces_start xx js (act, inact)
              else if val mod 2 = 0
                then faces_loop data faces_start xx js (act @ [Face (v1, v2, v3) val], inact)
                else faces_loop data faces_start xx js (act, inact @ [Face (v1, v2, v3) val])))"

subsection \<open>One iteration of the scan\<close>

text \<open>
  What the body of \<open>for pattern_name, pattern_info in patterns.items()\<close> does for one
  pattern: \<open>Skip\<close> when it falls through or runs \<open>continue\<close>, \<open>Fail\<close> when it
  returns \<open>False\<close>, \<open>Accept g i'\<close> when it appends \<open>g\<close>, moves the cursor to
  \<open>i'\<close> and breaks.
\<close>

datatype step = Skip | Fail error | Accept group nat

text \<open>The optional UV block: the UV list, its span when present, and \<open>pos_after_uv\<close>.\<close>

definition read_uvs ::
  "u8 list \<Rightarrow> pattern_name \<Rightarrow> nat \<Rightarrow> nat \<Rightarrow> error + ((int \<times> int) list \<times> (nat \<times> nat) option \<times> nat)" where
  "read_uvs data p xx pos_after_vertices =
     (if pos_after_vertices + 4 \<le> length data then
        (let expected_uv_header = uv_prefix p @ [of_nat xx] @ [0x65]
         in if take 4 (drop pos_after_vertices data) = expected_uv_header then
              (let uv_start = pos_after_vertices + 4;
                   uv_bytes_count = xx * 4
               in if uv_start + uv_bytes_count > length data then Inl CorruptedUVs
                  else (case uvs_loop data uv_start (py_range (int uv_bytes_count) 4) [] of
                          Inl e \<Rightarrow> Inl e
                        | Inr us \<Rightarrow>
                            Inr (us, Some (uv_start, uv_start + uv_bytes_count),
                                 uv_start + uv_bytes_count)))
            else Inr ([], None, pos_after_vertices))
      else Inr ([], None, pos_after_vertices))"

text \<open>Everything after \<open>found_pattern = True\<close>.\<close>

definition decode_group :: "u8 list \<Rightarrow> nat \<Rightarrow> pattern_name \<Rightarrow> nat \<Rightarrow> step" where
  "decode_group data i p xx =
     (let vertices_start = i + 4;
          vertex_bytes_count = xx * 6
      in if vertices_start + vertex_bytes_count > length data then Fail CorruptedVertices
         else (case vertices_loop data vertices_start (py_range (int vertex_bytes_count) 6) [] of
            Inl e \<Rightarrow> Fail e
          | Inr vs \<Rightarrow>
             (case read_uvs data p xx (vertices_start + vertex_bytes_count) of
                Inl e \<Rightarrow> Fail e
              | Inr (us, uv_span, pos_after_uv) \<Rightarrow>
                 (let faces_sig = faces_prefix p @ [of_nat xx] @ [0x6A]
                  in case find_bytes data faces_sig pos_after_uv of
                       None \<Rightarrow> Fail FacePatternNotFound
                     | Some pos_faces \<Rightarrow>
                        (let faces_start = pos_faces + length faces_sig + 6;
                             faces_bytes_count = (int xx - 2) * 3
                         in if int faces_start + faces_bytes_count > int (length data)
                            then Fail CorruptedFaces
                            else (case faces_loop data faces_start xx
                                         (py_range faces_bytes_count 3) ([], []) of
                                    Inl e \<Rightarrow> Fail e
                                  | Inr (act, inact) \<Rightarrow>
                                      Accept
                                        \<lparr> pattern = p, start = i, XX = xx, vertices = vs,
                                          active_faces = act, inactive_faces = inact,
                                          uvs = us,
                                          vertices_offset = vertices_start,
                                          vertices_end = vertices_start + vertex_bytes_count,
                                          uvs_span = uv_span,
                                          faces_offset = pos_faces,
                                          faces_end = int pos_faces + int (length faces_sig)
                                                        + faces_bytes_count \<rparr>
                                        (nat (int faces_start + faces_bytes_count))))))))"

text \<open>
  The header test. The loop guard keeps \<open>i + 3\<close> inside the buffer, so the two
  indexed reads cannot raise.
\<close>

definition try_pattern :: "u8 list \<Rightarrow> nat \<Rightarrow> pattern_name \<Rightarrow> step" where
  "try_pattern data i p =
     (if take 2 (drop i data) = prefix p then
        (let xx = unat (data ! (i + 2))
         in if \<not> (0x00 \<le> xx \<and> xx \<le> 0x2A) then Skip
            else if data ! (i + 3) \<noteq> 0x69 then Skip
            else decode_group data i p xx)
      else Skip)"

fun for_patterns :: "u8 list \<Rightarrow> nat \<Rightarrow> pattern_name list \<Rightarrow> step" where
  "for_patterns data i [] = Skip"
| "for_patterns data i (p # ps) =
     (case try_pattern data i p of
        Skip \<Rightarrow> for_patterns data i ps
      | r \<Rightarrow> r)"

subsection \<open>The scan loop of \<open>find_vertex_patterns\<close>\<close>

text \<open>
  \<open>while i < len(self.data) - 4\<close>, with \<open>self.vertex_groups\<close> passed along. A
  failure keeps the groups appended so far, as \<open>self.vertex_groups\<close> does when the
  method returns \<open>False\<close>. An accepted group moves the cursor forward, which is what
  makes the loop terminate.
\<close>

function find_vertex_patterns_loop ::
  "u8 list \<Rightarrow> nat \<Rightarrow> group list \<Rightarrow> (error \<times> group list) + group list" where
  "find_vertex_patterns_loop data i groups =
     (if int i < int (length data) - 4 then
        (case for_patterns data i patterns of
           Skip \<Rightarrow> find_vertex_patterns_loop data (i + 1) groups
         | Accept g i' \<Rightarrow> find_vertex_patterns_loop data i' (groups @ [g])
         | Fail e \<Rightarrow> Inl (e, groups))
      else Inr groups)"
  by pat_completeness auto
termination
proof (relation "measure (\<lambda>(data, i, groups). length data - i)")
  show "wf (measure (\<lambda>(data :: u8 list, i :: nat, groups :: group list). length data - i))"
    by simp
next
  fix data :: "u8 list" and i :: nat and groups :: "group list"
  assume "int i < int (length data) - 4"
  then show "((data, i + 1, groups), (data, i, groups))
      \<in> measure (\<lambda>(data, i, groups). length data - i)"
    by simp
next
  fix data :: "u8 list" and i :: nat and groups :: "group list" and g i'
  assume guard: "int i < int (length data) - 4"
    and acc: "for_patterns data i patterns = Accept g i'"
  have found: "s \<le> q" if "find_bytes data sub s = Some q" for sub s q
    using that unfolding find_bytes_def
    by (auto simp: find_Some_iff nth_append simp del: upt_Suc)
  have len2: "length (faces_prefix p) = 2" for p
    by (cases p) simp_all
  have dec: "i < j" if "decode_group data i p xx = Accept h j" for p xx h j
    using that unfolding decode_group_def read_uvs_def Let_def
    by (auto simp: len2 split: if_splits sum.splits option.splits prod.splits dest!: found)
  have one: "i < j" if "try_pattern data i p = Accept h j" for p h j
    using that unfolding try_pattern_def Let_def
    by (auto split: if_splits dest!: dec)
  from acc have "i < i'"
    unfolding patterns_def by (auto split: step.splits dest: one)
  with guard show "((data, i', groups @ [g]), (data, i, groups))
      \<in> measure (\<lambda>(data, i, groups). length data - i)"
    by simp
qed

definition find_vertex_patterns :: "u8 list \<Rightarrow> (error \<times> group list) + group list" where
  "find_vertex_patterns data = find_vertex_patterns_loop data 0 []"

subsection \<open>\<open>parse\<close>: global vertex indices\<close>

record mesh_group =
  grp :: group
  base_index :: nat
  mesh_active_faces :: "(int \<times> int \<times> int) list"
  mesh_inactive_faces :: "(int \<times> int \<times> int) list"

record parsed =
  vertex_groups :: "mesh_group list"
  parser_vertices :: "vertex list"

text \<open>
  The loop over one face list of a group. \<open>n\<close> is \<open>len(self.vertices)\<close>, read
  after the group's vertices were appended.
\<close>

fun adjust_faces ::
  "nat \<Rightarrow> nat \<Rightarrow> face list \<Rightarrow> (int \<times> int \<times> int) list \<Rightarrow> error + (int \<times> int \<times> int) list" where
  "adjust_faces base n [] out = Inr out"
| "adjust_faces base n (NotAFace # fs) out = Inl InvalidFaceFormat"
| "adjust_faces base n (Face (a, b, c) _ # fs) out =
     (let adjusted_indices = (a - 1 + int base, b - 1 + int base, c - 1 + int base)
      in if (0 \<le> a - 1 + int base \<and> a - 1 + int base < int n) \<and>
            (0 \<le> b - 1 + int base \<and> b - 1 + int base < int n) \<and>
            (0 \<le> c - 1 + int base \<and> c - 1 + int base < int n)
         then adjust_faces base n fs (out @ [adjusted_indices])
         else adjust_faces base n fs out)"

fun remap_loop :: "group list \<Rightarrow> vertex list \<Rightarrow> mesh_group list \<Rightarrow> error + parsed" where
  "remap_loop [] verts done = Inr \<lparr> vertex_groups = done, parser_vertices = verts \<rparr>"
| "remap_loop (g # gs) verts done =
     (let base = length verts;
          verts' = verts @ vertices g
      in case adjust_faces base (length verts') (active_faces g) [] of
           Inl e \<Rightarrow> Inl e
         | Inr ma \<Rightarrow>
            (case adjust_faces base (length verts') (inactive_faces g) [] of
               Inl e \<Rightarrow> Inl e
             | Inr mi \<Rightarrow>
                 remap_loop gs verts'
                   (done @ [\<lparr> grp = g, base_index = base,
                              mesh_active_faces = ma, mesh_inactive_faces = mi \<rparr>])))"

text \<open>The file is its contents, or \<open>None\<close> when reading it raises.\<close>

definition parse :: "u8 list option \<Rightarrow> error + parsed" where
  "parse file =
     (case file of
        None \<Rightarrow> Inl ReadError
      | Some data \<Rightarrow>
         (case find_vertex_patterns data of
            Inl (e, _) \<Rightarrow> Inl e
          | Inr groups \<Rightarrow> remap_loop groups [] []))"

subsection \<open>\<open>export_to_obj\<close>: the lines of the OBJ document\<close>

text \<open>Python's \<open>str\<close> of an integer.\<close>

definition digit_char :: "nat \<Rightarrow> char" where
  "digit_char d = ''0123456789'' ! d"

fun str_nat :: "nat \<Rightarrow> string" where
  "str_nat n = (if n < 10 then [digit_char n] else str_nat (n div 10) @ [digit_char (n mod 10)])"

definition str_int :: "int \<Rightarrow> string" where
  "str_int k = (if k < 0 then ''-'' @ str_nat (nat (- k)) else str_nat (nat k))"

text \<open>The UV contributed by one group.\<close>

definition group_uvs :: "mesh_group \<Rightarrow> (int \<times> int) list" where
  "group_uvs g =
     (if length (uvs (grp g)) = length (vertices (grp g)) then uvs (grp g)
      else replicate (length (vertices (grp g))) (0, 0))"

definition build_global_uvs :: "mesh_group list \<Rightarrow> nat \<Rightarrow> (int \<times> int) list" where
  "build_global_uvs gs n =
     (let global_uvs = concat (map group_uvs gs)
      in if length global_uvs < n then global_uvs @ replicate (n - length global_uvs) (0, 0)
         else if length global_uvs > n then take n global_uvs
         else global_uvs)"

text \<open>
  The vertex array is a \<open>float32\<close> array, divided by 256 when the scale is on; how
  numpy prints such a number is the parameter \<open>str_f32\<close>.
\<close>

definition scaled :: "bool \<Rightarrow> int \<Rightarrow> real" where
  "scaled scale_enabled x = (if scale_enabled then real_of_int x / 256 else real_of_int x)"

definition v_line :: "(real \<Rightarrow> string) \<Rightarrow> bool \<Rightarrow> vertex \<Rightarrow> string" where
  "v_line str_f32 scale_enabled v =
     (case v of (x, y, z) \<Rightarrow>
        ''v '' @ str_f32 (scaled scale_enabled x) @ '' '' @ str_f32 (scaled scale_enabled y)
          @ '' '' @ str_f32 (scaled scale_enabled z))"

definition vt_line :: "int \<times> int \<Rightarrow> string" where
  "vt_line uv = (case uv of (u, v) \<Rightarrow> ''vt '' @ str_int u @ '' '' @ str_int v)"

definition f_line :: "int \<times> int \<times> int \<Rightarrow> string" where
  "f_line face =
     (case face of (v1, v2, v3) \<Rightarrow>
        ''f '' @ str_int (v1 + 1) @ ''/'' @ str_int (v1 + 1) @ '' ''
          @ str_int (v2 + 1) @ ''/'' @ str_int (v2 + 1) @ '' ''
          @ str_int (v3 + 1) @ ''/'' @ str_int (v3 + 1))"

definition obj_lines ::
  "(real \<Rightarrow> string) \<Rightarrow> bool \<Rightarrow> mesh_group list \<Rightarrow> vertex list \<Rightarrow> string list" where
  "obj_lines str_f32 scale_enabled gs original_vertices =
     map (v_line str_f32 scale_enabled) original_vertices
     @ map vt_line (build_global_uvs gs (length original_vertices))
     @ concat (map (\<lambda>g. map f_line (mesh_active_faces g)) gs)"

text \<open>
  \<open>export_to_obj\<close> returns early (\<open>None\<close>) without a successfully parsed model or
  without a chosen path; otherwise it builds the lines that it then writes.
\<close>

definition export_to_obj ::
  "(real \<Rightarrow> string) \<Rightarrow> bool \<Rightarrow> parsed option \<Rightarrow> string option \<Rightarrow> vertex list \<Rightarrow> string list option" where
  "export_to_obj str_f32 scale_enabled parser filepath original_vertices =
     (case parser of
        None \<Rightarrow> None
      | Some m \<Rightarrow>
         (case filepath of
            None \<Rightarrow> None
          | Some _ \<Rightarrow> Some (obj_lines str_f32 scale_enabled (vertex_groups m) original_vertices)))"

definition is_v_line :: "string \<Rightarrow> bool" where
  "is_v_line l = (take 2 l = ''v '')"

definition is_vt_line :: "string \<Rightarrow> bool" where
  "is_vt_line l = (take 3 l = ''vt '')"

section \<open>Notions used to state the properties\<close>

text \<open>
  The states in which the loop evaluates its guard: \<open>scan_reaches data i groups\<close>
  holds when the scan of \<open>data\<close> comes to the head of the loop with cursor \<open>i\<close> and
  \<open>groups\<close> appended so far. An offset is tested when the guard lets the body run there.
\<close>

inductive scan_reaches :: "u8 list \<Rightarrow> nat \<Rightarrow> group list \<Rightarrow> bool" for data :: "u8 list" where
  reach_start: "scan_reaches data 0 []"
| reach_skip: "scan_reaches data i groups \<Longrightarrow> int i < int (length data) - 4 \<Longrightarrow>
     for_patterns data i patterns = Skip \<Longrightarrow> scan_reaches data (i + 1) groups"
| reach_accept: "scan_reaches data i groups \<Longrightarrow> int i < int (length data) - 4 \<Longrightarrow>
     for_patterns data i patterns = Accept g i' \<Longrightarrow> scan_reaches data i' (groups @ [g])"

definition offset_tested :: "u8 list \<Rightarrow> nat \<Rightarrow> bool" where
  "offset_tested data i = ((\<exists>groups. scan_reaches data i groups) \<and> int i < int (length data) - 4)"

text \<open>
  A grammar's four-byte vertex header at offset \<open>i\<close> of the buffer, with count \<open>n\<close>:
  the statement of the format, used to phrase properties of the scan.
\<close>

definition vertex_header_at :: "u8 list \<Rightarrow> nat \<Rightarrow> pattern_name \<Rightarrow> nat \<Rightarrow> bool" where
  "vertex_header_at data i p n =
     (i + 4 \<le> length data \<and> take 2 (drop i data) = prefix p \<and>
      unat (data ! (i + 2)) = n \<and> n \<le> 0x2A \<and> data ! (i + 3) = 0x69)"

text \<open>The cursor after an accepted group: \<open>faces_start + faces_bytes_count\<close>.\<close>

definition cursor_after :: "group \<Rightarrow> int" where
  "cursor_after g = int (faces_offset g) + 4 + 6 + (int (XX g) - 2) * 3"

text \<open>
  A face in the numbering of its group of \<open>n\<close> vertices: three consecutive
  1-based indices, none above \<open>n\<close>.
\<close>

definition local_face :: "nat \<Rightarrow> face \<Rightarrow> bool" where
  "local_face n f = (\<exists>a v. f = Face (a, a + 1, a + 2) v \<and> 1 \<le> a \<and> a + 2 \<le> int n)"

text \<open>
  What the scan guarantees of a group accepted at offset \<open>i\<close> with the cursor moved
  to \<open>i'\<close>.
\<close>

definition group_ok :: "nat \<Rightarrow> group \<Rightarrow> nat \<Rightarrow> bool" where
  "group_ok i g i' =
     (start g = i \<and> XX g \<le> 0x2A \<and> length (vertices g) = XX g \<and>
      (uvs g = [] \<or> length (uvs g) = XX g) \<and>
      (\<forall>f\<in>set (active_faces g) \<union> set (inactive_faces g). local_face (XX g) f) \<and>
      length (active_faces g) + length (inactive_faces g) = XX g - 2 \<and>
      i + 4 + XX g * 6 \<le> faces_offset g \<and>
      int i' = cursor_after g)"

text \<open>
  The remapping in the words of the specification: each face's indices become
  \<open>local_index - 1 + base\<close>, with \<open>base\<close> the number of global vertices before the
  group.
\<close>

definition to_global :: "nat \<Rightarrow> int \<times> int \<times> int \<Rightarrow> int \<times> int \<times> int" where
  "to_global base t = (case t of (a, b, c) \<Rightarrow> (a - 1 + int base, b - 1 + int base, c - 1 + int base))"

definition in_range :: "nat \<Rightarrow> int \<times> int \<times> int \<Rightarrow> bool" where
  "in_range n t = (case t of (a, b, c) \<Rightarrow> 0 \<le> a \<and> a < int n \<and> 0 \<le> b \<and> b < int n \<and> 0 \<le> c \<and> c < int n)"

fun remap_spec :: "group list \<Rightarrow> nat \<Rightarrow> mesh_group list" where
  "remap_spec [] base = []"
| "remap_spec (g # gs) base =
     \<lparr> grp = g, base_index = base,
       mesh_active_faces = map (to_global base \<circ> indices) (active_faces g),
       mesh_inactive_faces = map (to_global base \<circ> indices) (inactive_faces g) \<rparr>
     # remap_spec gs (base + length (vertices g))"

text \<open>
  The UV header and the face signature of a group of grammar \<open>p\<close> with count \<open>n\<close>,
  as the format states them.
\<close>

definition uv_header_at :: "u8 list \<Rightarrow> nat \<Rightarrow> pattern_name \<Rightarrow> nat \<Rightarrow> bool" where
  "uv_header_at data q p n =
     (q + 4 \<le> length data \<and> take 4 (drop q data) = uv_prefix p @ [of_nat n, 0x65])"

definition face_signature :: "pattern_name \<Rightarrow> nat \<Rightarrow> u8 list" where
  "face_signature p n = faces_prefix p @ [of_nat n, 0x6A]"

text \<open>The end of the vertex block of a header at \<open>i\<close>, and of the UV block when there is one.\<close>

definition block_end :: "u8 list \<Rightarrow> nat \<Rightarrow> pattern_name \<Rightarrow> nat \<Rightarrow> nat" where
  "block_end data i p n =
     (if uv_header_at data (i + 4 + 6 * n) p n then i + 4 + 6 * n + 4 + 4 * n else i + 4 + 6 * n)"

text \<open>The buffer of the specification's first scenario, for any six padding bytes.\<close>

definition scenario_buffer :: "u8 \<Rightarrow> u8 \<Rightarrow> u8 \<Rightarrow> u8 \<Rightarrow> u8 \<Rightarrow> u8 \<Rightarrow> u8 list" where
  "scenario_buffer p1 p2 p3 p4 p5 p6 =
     [0xEE, 0x00, 0x03, 0x69,
      0, 0, 0, 0, 0, 0,  0, 0, 0, 0, 0, 0,  0, 0, 0, 0, 0, 0,
      0x9A, 0x00, 0x03, 0x6A,
      p1, p2, p3, p4, p5, p6,
      0x00, 0, 0]"

definition scenario_group :: group where
  "scenario_group =
     \<lparr> pattern = pattern1, start = 0, XX = 3,
       vertices = [(0, 0, 0), (0, 0, 0), (0, 0, 0)],
       active_faces = [Face (1, 2, 3) 0], inactive_faces = [], uvs = [],
       vertices_offset = 4, vertices_end = 22, uvs_span = None,
       faces_offset = 22, faces_end = 29 \<rparr>"

text \<open>The first scenario followed by a header of count 5 and only seven more bytes.\<close>

definition truncated_buffer :: "u8 list" where
  "truncated_buffer = scenario_buffer 0 0 0 0 0 0 @ [0xEE, 0x00, 0x05, 0x69, 0, 0, 0, 0, 0, 0, 0]"

text \<open>Two groups of count 0, each a vertex header and a face signature, and one more byte.\<close>

definition overlap_buffer :: "u8 list" where
  "overlap_buffer =
     [0xEE, 0x00, 0x00, 0x69,  0x9A, 0x00, 0x00, 0x6A,
      0xEE, 0x00, 0x00, 0x69,  0x9A, 0x00, 0x00, 0x6A,  0x00]"

definition overlap_first :: group where
  "overlap_first =
     \<lparr> pattern = pattern1, start = 0, XX = 0, vertices = [],
       active_faces = [], inactive_faces = [], uvs = [],
       vertices_offset = 4, vertices_end = 4, uvs_span = None,
       faces_offset = 4, faces_end = 2 \<rparr>"

definition overlap_second :: group where
  "overlap_second =
     \<lparr> pattern = pattern1, start = 8, XX = 0, vertices = [],
       active_faces = [], inactive_faces = [], uvs = [],
       vertices_offset = 12, vertices_end = 12, uvs_span = None,
       faces_offset = 12, faces_end = 10 \<rparr>"

text \<open>The groups on which the remapping can lose no face.\<close>

definition groups_local :: "group list \<Rightarrow> bool" where
  "groups_local gs = (\<forall>g\<in>set gs. length (vertices g) = XX g \<and>
     (\<forall>f\<in>set (active_faces g) \<union> set (inactive_faces g). local_face (XX g) f))"

text \<open>
  Groups in scan order from a cursor \<open>c\<close> on: each starts at or after the cursor
  left by the one before, and leaves the cursor at least eight bytes further.
\<close>

fun ordered_from :: "int \<Rightarrow> group list \<Rightarrow> bool" where
  "ordered_from c [] = True"
| "ordered_from c (g # gs) =
     (c \<le> int (start g) \<and> int (start g) + 8 \<le> cursor_after g \<and> ordered_from (cursor_after g) gs)"

text \<open>A remapped group with one UV for three vertices.\<close>

definition short_uv_group :: mesh_group where
  "short_uv_group =
     \<lparr> grp = scenario_group \<lparr> uvs := [(5, 6)] \<rparr>, base_index = 0,
       mesh_active_faces = [(0, 1, 2)], mesh_inactive_faces = [] \<rparr>"

text \<open>
  An offset the cursor jumped over: strictly between the start of one of the
  groups and the cursor that group left.
\<close>

definition jumped_over :: "group list \<Rightarrow> nat \<Rightarrow> bool" where
  "jumped_over gs k = (\<exists>g\<in>set gs. start g < k \<and> int k < cursor_after g)"

text \<open>The first scenario followed by eight zero bytes.\<close>

definition trailing_buffer :: "u8 list" where
  "trailing_buffer = scenario_buffer 0 0 0 0 0 0 @ [0, 0, 0, 0, 0, 0, 0, 0]"

section \<open>Properties\<close>

subsection \<open>Library functions\<close>

lemma py_range_mult: "py_range (int (n * Suc k)) (Suc k) = map (\<lambda>j. j * Suc k) [0 ..< n]"
proof -
  have "(int (n * Suc k) + int (Suc k) - 1) div int (Suc k) = int n"
  proof -
    have "int (n * Suc k) + int (Suc k) - 1 = int n * int (Suc k) + int k"
      by (simp add: algebra_simps)
    moreover have "(int n * int (Suc k) + int k) div int (Suc k) = int n"
      by (simp add: div_mult_self3 del: of_nat_Suc)
    ultimately show ?thesis by simp
  qed
  then show ?thesis
    unfolding py_range_def by (simp del: of_nat_Suc of_nat_mult)
qed

lemma py_range_faces: "py_range ((int xx - 2) * 3) 3 = map (\<lambda>k. k * 3) [0 ..< xx - 2]"
proof (cases "2 \<le> xx")
  case True
  then have "(int xx - 2) * 3 = int ((xx - 2) * Suc 2)" by (simp add: of_nat_diff)
  then show ?thesis using py_range_mult [of "xx - 2" 2] by (simp add: numeral_3_eq_3)
next
  case False
  then have "((int xx - 2) * 3 + int 3 - 1) div int 3 \<le> 0" by simp
  with False show ?thesis unfolding py_range_def by simp
qed

lemma find_bytes_Some:
  "find_bytes data sub s = Some q \<Longrightarrow> s \<le> q \<and> occurs_at data sub q"
  unfolding find_bytes_def
  by (auto simp: find_Some_iff nth_append simp del: upt_Suc)

lemma occurs_at_bound: "sub \<noteq> [] \<Longrightarrow> occurs_at data sub q \<Longrightarrow> q + length sub \<le> length data"
  unfolding occurs_at_def
proof -
  assume ne: "sub \<noteq> []" and o: "take (length sub) (drop q data) = sub"
  have "length (take (length sub) (drop q data)) = length sub" using o by simp
  then have "length sub \<le> length data - q" by simp
  moreover have "q < length data"
  proof (rule ccontr)
    assume "\<not> q < length data"
    then have "drop q data = []" by simp
    with o ne show False by simp
  qed
  ultimately show ?thesis by simp
qed

lemma find_bytes_None:
  "sub \<noteq> [] \<Longrightarrow> find_bytes data sub s = None \<longleftrightarrow> (\<forall>q\<ge>s. \<not> occurs_at data sub q)"
proof
  assume ne: "sub \<noteq> []" and n: "find_bytes data sub s = None"
  show "\<forall>q\<ge>s. \<not> occurs_at data sub q"
  proof (intro allI impI notI)
    fix q assume "s \<le> q" "occurs_at data sub q"
    moreover from this ne have "q + length sub \<le> length data" by (simp add: occurs_at_bound)
    ultimately have "q \<in> set [s ..< Suc (length data - length sub)]" by auto
    with n \<open>occurs_at data sub q\<close> show False
      unfolding find_bytes_def find_None_iff by blast
  qed
next
  assume "sub \<noteq> []" "\<forall>q\<ge>s. \<not> occurs_at data sub q"
  then show "find_bytes data sub s = None"
    unfolding find_bytes_def find_None_iff by (auto simp del: upt_Suc)
qed

lemma vertices_loop_length:
  "vertices_loop data s js vs = Inr vs' \<Longrightarrow> length vs' = length vs + length js"
  by (induction js arbitrary: vs) (auto split: option.splits)

lemma vertices_loop_ok:
  "\<forall>j\<in>set js. s + j + 6 \<le> length data \<Longrightarrow> \<exists>vs'. vertices_loop data s js vs = Inr vs'"
  by (induction js arbitrary: vs) (auto simp: unpack_hhh_def)

lemma uvs_loop_length:
  "uvs_loop data s js us = Inr us' \<Longrightarrow> length us' = length us + length js"
  by (induction js arbitrary: us) (auto split: option.splits)

lemma uvs_loop_ok:
  "\<forall>j\<in>set js. s + j + 4 \<le> length data \<Longrightarrow> \<exists>us'. uvs_loop data s js us = Inr us'"
  by (induction js arbitrary: us) (auto simp: unpack_hh_def)

subsection \<open>The record loops\<close>

lemma faces_loop_local:
  "faces_loop data s xx js (act, inact) = Inr (act', inact') \<Longrightarrow>
   \<forall>f\<in>set act \<union> set inact. local_face xx f \<Longrightarrow>
   \<forall>f\<in>set act' \<union> set inact'. local_face xx f"
proof (induction js arbitrary: act inact)
  case Nil
  then show ?case by simp
next
  case (Cons j js)
  have lf: "local_face xx (Face (int (j div 3) + 1, int (j div 3) + 1 + 1, int (j div 3) + 1 + 2) v)"
    if "\<not> int (j div 3) + 1 + 2 > int xx" for v
    using that unfolding local_face_def by auto
  from Cons.prems(1) obtain v b c where u: "unpack_BBB data (s + j) = Some (v, b, c)"
    by (auto split: option.splits)
  show ?case
  proof (cases "int (j div 3) + 1 + 2 > int xx")
    case True
    with Cons.prems u have "faces_loop data s xx js (act, inact) = Inr (act', inact')"
      by (simp add: Let_def)
    from Cons.IH [OF this Cons.prems(2)] show ?thesis .
  next
    case False
    show ?thesis
    proof (cases "v mod 2 = 0")
      case True
      with False Cons.prems u have "faces_loop data s xx js
          (act @ [Face (int (j div 3) + 1, int (j div 3) + 1 + 1, int (j div 3) + 1 + 2) v], inact) = Inr (act', inact')"
        by (simp add: Let_def)
      from Cons.IH [OF this] lf [OF False] Cons.prems(2) show ?thesis by auto
    next
      case odd: False
      with False Cons.prems u have "faces_loop data s xx js
          (act, inact @ [Face (int (j div 3) + 1, int (j div 3) + 1 + 1, int (j div 3) + 1 + 2) v]) = Inr (act', inact')"
        by (simp add: Let_def)
      from Cons.IH [OF this] lf [OF False] Cons.prems(2) show ?thesis by auto
    qed
  qed
qed

lemma faces_loop_count:
  "faces_loop data s xx js (act, inact) = Inr (act', inact') \<Longrightarrow>
   \<forall>j\<in>set js. int (j div 3) + 3 \<le> int xx \<Longrightarrow>
   length act' + length inact' = length act + length inact + length js"
proof (induction js arbitrary: act inact)
  case Nil
  then show ?case by simp
next
  case (Cons j js)
  from Cons.prems(1) obtain v b c where u: "unpack_BBB data (s + j) = Some (v, b, c)"
    by (auto split: option.splits)
  from Cons.prems(2) have keep: "\<not> int (j div 3) + 1 + 2 > int xx" and rest: "\<forall>j\<in>set js. int (j div 3) + 3 \<le> int xx"
    by auto
  show ?case
  proof (cases "v mod 2 = 0")
    case True
    with keep Cons.prems u have "faces_loop data s xx js
        (act @ [Face (int (j div 3) + 1, int (j div 3) + 1 + 1, int (j div 3) + 1 + 2) v], inact) = Inr (act', inact')"
      by (simp add: Let_def)
    from Cons.IH [OF this rest] show ?thesis by simp
  next
    case False
    with keep Cons.prems u have "faces_loop data s xx js
        (act, inact @ [Face (int (j div 3) + 1, int (j div 3) + 1 + 1, int (j div 3) + 1 + 2) v]) = Inr (act', inact')"
      by (simp add: Let_def)
    from Cons.IH [OF this rest] show ?thesis by simp
  qed
qed

lemma faces_loop_ok:
  "\<forall>j\<in>set js. s + j + 3 \<le> length data \<Longrightarrow> \<exists>r. faces_loop data s xx js (act, inact) = Inr r"
  by (induction js arbitrary: act inact) (simp_all add: unpack_BBB_def Let_def)

subsection \<open>Accepted groups\<close>

lemma length_faces_prefix: "length (faces_prefix p) = 2"
  by (cases p) simp_all

lemma decode_group_Accept:
  assumes "decode_group data i p xx = Accept g i'"
  shows "\<exists>vs us sp pau pf act inact.
    i + 4 + xx * 6 \<le> length data \<and>
    vertices_loop data (i + 4) (py_range (int (xx * 6)) 6) [] = Inr vs \<and>
    read_uvs data p xx (i + 4 + xx * 6) = Inr (us, sp, pau) \<and>
    find_bytes data (faces_prefix p @ [of_nat xx] @ [0x6A]) pau = Some pf \<and>
    int (pf + 4 + 6) + (int xx - 2) * 3 \<le> int (length data) \<and>
    faces_loop data (pf + 4 + 6) xx (py_range ((int xx - 2) * 3) 3) ([], []) = Inr (act, inact) \<and>
    g = \<lparr> pattern = p, start = i, XX = xx, vertices = vs,
          active_faces = act, inactive_faces = inact, uvs = us,
          vertices_offset = i + 4, vertices_end = i + 4 + xx * 6,
          uvs_span = sp, faces_offset = pf,
          faces_end = int pf + 4 + (int xx - 2) * 3 \<rparr> \<and>
    i' = nat (int (pf + 4 + 6) + (int xx - 2) * 3)"
  using assms unfolding decode_group_def Let_def
  by (simp add: length_faces_prefix split: if_splits sum.splits option.splits prod.splits)

lemma read_uvs_Inr:
  assumes "read_uvs data p xx pav = Inr (us, sp, pau)"
  shows "pav \<le> pau \<and> (us = [] \<or> length us = xx)"
  using assms unfolding read_uvs_def Let_def
  by (auto simp: py_range_mult [of xx 3, simplified] dest!: uvs_loop_length split: if_splits sum.splits)

lemma try_pattern_Accept:
  assumes "try_pattern data i p = Accept g i'"
  shows "take 2 (drop i data) = prefix p \<and> unat (data ! (i + 2)) \<le> 0x2A \<and> data ! (i + 3) = 0x69
     \<and> decode_group data i p (unat (data ! (i + 2))) = Accept g i'"
  using assms unfolding try_pattern_def Let_def by (auto split: if_splits)

lemma for_patterns_cases:
  "for_patterns data i patterns = r \<Longrightarrow>
     (try_pattern data i pattern1 = r \<and> r \<noteq> Skip) \<or>
     (try_pattern data i pattern1 = Skip \<and> try_pattern data i pattern2 = r)"
  unfolding patterns_def by (auto split: step.splits)

lemma for_patterns_Accept:
  assumes "for_patterns data i patterns = Accept g i'"
  shows "\<exists>p. try_pattern data i p = Accept g i'"
  using for_patterns_cases [OF assms] by auto

lemma accepted_group_ok:
  assumes "for_patterns data i patterns = Accept g i'"
  shows "group_ok i g i'"
proof -
  from for_patterns_Accept [OF assms] obtain p where t: "try_pattern data i p = Accept g i'" ..
  define xx where "xx = unat (data ! (i + 2))"
  from try_pattern_Accept [OF t] have xx: "xx \<le> 0x2A" and d: "decode_group data i p xx = Accept g i'"
    by (simp_all add: xx_def)
  from decode_group_Accept [OF d] obtain vs us sp pau pf act inact where
    vl: "vertices_loop data (i + 4) (py_range (int (xx * 6)) 6) [] = Inr vs" and
    ru: "read_uvs data p xx (i + 4 + xx * 6) = Inr (us, sp, pau)" and
    fb: "find_bytes data (faces_prefix p @ [of_nat xx] @ [0x6A]) pau = Some pf" and
    fl: "faces_loop data (pf + 4 + 6) xx (py_range ((int xx - 2) * 3) 3) ([], []) = Inr (act, inact)" and
    g: "g = \<lparr> pattern = p, start = i, XX = xx, vertices = vs,
          active_faces = act, inactive_faces = inact, uvs = us,
          vertices_offset = i + 4, vertices_end = i + 4 + xx * 6,
          uvs_span = sp, faces_offset = pf,
          faces_end = int pf + 4 + (int xx - 2) * 3 \<rparr>" and
    i': "i' = nat (int (pf + 4 + 6) + (int xx - 2) * 3)"
    by blast
  have "length vs = xx"
    using vertices_loop_length [OF vl] py_range_mult [of xx 5] by simp
  moreover from read_uvs_Inr [OF ru] have "i + 4 + xx * 6 \<le> pau" "us = [] \<or> length us = xx"
    by simp_all
  moreover from find_bytes_Some [OF fb] have "pau \<le> pf" by simp
  moreover have "\<forall>f\<in>set act \<union> set inact. local_face xx f"
    using faces_loop_local [OF fl] by simp
  moreover have "length act + length inact = xx - 2"
  proof -
    from fl have fl': "faces_loop data (pf + 4 + 6) xx (map (\<lambda>k. k * 3) [0 ..< xx - 2]) ([], []) = Inr (act, inact)"
      unfolding py_range_faces .
    have "\<forall>j\<in>set (map (\<lambda>k. k * 3) [0 ..< xx - 2]). int (j div 3) + 3 \<le> int xx"
      by auto
    from faces_loop_count [OF fl' this] show ?thesis by simp
  qed
  moreover have "int i' = int pf + 4 + 6 + (int xx - 2) * 3"
    using i' by simp
  ultimately show ?thesis
    using xx g unfolding group_ok_def cursor_after_def by simp
qed

subsection \<open>The scan loop\<close>

declare find_vertex_patterns_loop.simps [simp del]

lemma loop_stop: "\<not> int i < int (length data) - 4 \<Longrightarrow> find_vertex_patterns_loop data i groups = Inr groups"
  by (subst find_vertex_patterns_loop.simps) simp

lemma loop_skip: "int i < int (length data) - 4 \<Longrightarrow> for_patterns data i patterns = Skip \<Longrightarrow>
  find_vertex_patterns_loop data i groups = find_vertex_patterns_loop data (i + 1) groups"
  by (subst find_vertex_patterns_loop.simps) simp

lemma loop_accept: "int i < int (length data) - 4 \<Longrightarrow> for_patterns data i patterns = Accept g i' \<Longrightarrow>
  find_vertex_patterns_loop data i groups = find_vertex_patterns_loop data i' (groups @ [g])"
  by (subst find_vertex_patterns_loop.simps) simp

lemma loop_fail: "int i < int (length data) - 4 \<Longrightarrow> for_patterns data i patterns = Fail e \<Longrightarrow>
  find_vertex_patterns_loop data i groups = Inl (e, groups)"
  by (subst find_vertex_patterns_loop.simps) simp

lemma reaches_loop:
  "scan_reaches data i groups \<Longrightarrow> find_vertex_patterns data = find_vertex_patterns_loop data i groups"
  by (induction rule: scan_reaches.induct)
     (simp_all add: find_vertex_patterns_def loop_skip loop_accept)

lemma loop_all_skip:
  "(\<And>j. i \<le> j \<Longrightarrow> int j < int (length data) - 4 \<Longrightarrow> for_patterns data j patterns = Skip) \<Longrightarrow>
   find_vertex_patterns_loop data i groups = Inr groups"
proof (induction "length data - i" arbitrary: i)
  case 0
  then show ?case by (simp add: loop_stop)
next
  case (Suc d)
  show ?case
  proof (cases "int i < int (length data) - 4")
    case True
    then have "for_patterns data i patterns = Skip" using Suc.prems by simp
    with True have "find_vertex_patterns_loop data i groups = find_vertex_patterns_loop data (i + 1) groups"
      by (rule loop_skip)
    also have "\<dots> = Inr groups"
    proof (rule Suc.hyps(1))
      show "d = length data - (i + 1)" using Suc.hyps(2) by simp
    next
      fix j assume "i + 1 \<le> j" "int j < int (length data) - 4"
      then show "for_patterns data j patterns = Skip" using Suc.prems by simp
    qed
    finally show ?thesis .
  next
    case False
    then show ?thesis by (simp add: loop_stop)
  qed
qed

lemma accept_progress:
  assumes "for_patterns data i patterns = Accept g i'"
  shows "i + 8 \<le> i'"
proof -
  from accepted_group_ok [OF assms] have
    "i + 4 + XX g * 6 \<le> faces_offset g" and "int i' = cursor_after g"
    unfolding group_ok_def by simp_all
  then have "int i + 8 \<le> int i'" unfolding cursor_after_def by simp
  then show ?thesis by simp
qed

text \<open>Every group of a successful scan was accepted at some tested offset.\<close>

lemma loop_groups:
  "find_vertex_patterns_loop data i groups = Inr gs \<Longrightarrow>
   \<exists>new. gs = groups @ new \<and>
     (\<forall>g\<in>set new. \<exists>j j'. i \<le> j \<and> int j < int (length data) - 4 \<and>
        for_patterns data j patterns = Accept g j')"
proof (induction data i groups rule: find_vertex_patterns_loop.induct)
  case (1 data i groups)
  show ?case
  proof (cases "int i < int (length data) - 4")
    case False
    with "1.prems" show ?thesis by (simp add: loop_stop)
  next
    case True
    show ?thesis
    proof (cases "for_patterns data i patterns")
      case Skip
      with True "1.prems" have "find_vertex_patterns_loop data (i + 1) groups = Inr gs"
        by (simp add: loop_skip)
      from "1.IH"(1) [OF True Skip this] obtain new where
        gs: "gs = groups @ new" and
        new: "\<forall>h\<in>set new. \<exists>j j'. i + 1 \<le> j \<and> int j < int (length data) - 4 \<and>
            for_patterns data j patterns = Accept h j'"
        by blast
      have "\<forall>h\<in>set new. \<exists>j j'. i \<le> j \<and> int j < int (length data) - 4 \<and>
            for_patterns data j patterns = Accept h j'"
      proof
        fix h assume "h \<in> set new"
        with new obtain j j' where "i + 1 \<le> j" "int j < int (length data) - 4"
          "for_patterns data j patterns = Accept h j'" by blast
        then show "\<exists>j j'. i \<le> j \<and> int j < int (length data) - 4 \<and>
            for_patterns data j patterns = Accept h j'"
          by (intro exI [of _ j] exI [of _ j']) simp
      qed
      with gs show ?thesis by blast
    next
      case (Fail e)
      with True "1.prems" show ?thesis by (simp add: loop_fail)
    next
      case (Accept g i')
      with True "1.prems" have "find_vertex_patterns_loop data i' (groups @ [g]) = Inr gs"
        by (simp add: loop_accept)
      from "1.IH"(2) [OF True Accept this] obtain new where
        gs: "gs = (groups @ [g]) @ new" and
        new: "\<forall>h\<in>set new. \<exists>j j'. i' \<le> j \<and> int j < int (length data) - 4 \<and>
            for_patterns data j patterns = Accept h j'"
        by blast
      have "i < i'" using accept_progress [OF Accept] by simp
      have "\<forall>h\<in>set new. \<exists>j j'. i \<le> j \<and> int j < int (length data) - 4 \<and>
            for_patterns data j patterns = Accept h j'"
      proof
        fix h assume "h \<in> set new"
        with new obtain j j' where "i' \<le> j" "int j < int (length data) - 4"
          "for_patterns data j patterns = Accept h j'" by blast
        with \<open>i < i'\<close> show "\<exists>j j'. i \<le> j \<and> int j < int (length data) - 4 \<and>
            for_patterns data j patterns = Accept h j'"
          by (intro exI [of _ j] exI [of _ j']) simp
      qed
      with gs True Accept show ?thesis
        by (intro exI [of _ "g # new"]) auto
    qed
  qed
qed

lemma scan_groups_ok:
  assumes "find_vertex_patterns data = Inr gs" "g \<in> set gs"
  shows "\<exists>j j'. group_ok j g j'"
proof -
  from loop_groups [OF assms(1) [unfolded find_vertex_patterns_def]] assms(2)
  obtain j j' where "for_patterns data j patterns = Accept g j'" by auto
  from accepted_group_ok [OF this] show ?thesis by blast
qed

subsection \<open>The first scenario\<close>

lemma scenario_accept:
  "for_patterns (scenario_buffer p1 p2 p3 p4 p5 p6) 0 patterns = Accept scenario_group 35"
proof -
  have r1: "py_range 18 6 = [0, 6, 12]" by code_simp
  have r2: "py_range 3 3 = [0]" by code_simp
  show ?thesis
    unfolding scenario_buffer_def scenario_group_def patterns_def
    by (simp add: try_pattern_def decode_group_def read_uvs_def r1 r2 find_bytes_def
        occurs_at_def unpack_hhh_def unpack_BBB_def le_i16_def Let_def)
qed

lemma scenario_scan:
  "find_vertex_patterns (scenario_buffer p1 p2 p3 p4 p5 p6) = Inr [scenario_group]"
proof -
  have len: "length (scenario_buffer p1 p2 p3 p4 p5 p6) = 35"
    by (simp add: scenario_buffer_def)
  have "find_vertex_patterns_loop (scenario_buffer p1 p2 p3 p4 p5 p6) 0 [] =
      find_vertex_patterns_loop (scenario_buffer p1 p2 p3 p4 p5 p6) 35 ([] @ [scenario_group])"
    by (rule loop_accept) (simp_all add: len scenario_accept)
  also have "\<dots> = Inr [scenario_group]"
    by (simp add: loop_stop len)
  finally show ?thesis by (simp add: find_vertex_patterns_def)
qed

text \<open>
  C1. Parsing the 35-byte buffer \<open>EE 00 03 69\<close>, 18 zero bytes, \<open>9A 00 03 6A\<close>, six
  padding bytes of any value, \<open>00 00 00\<close> succeeds with exactly one group, of
  pattern 1, with three vertices at the origin, no UV, the one active face
  \<open>(1, 2, 3)\<close> and no inactive face; \<open>parse\<close> turns the face into \<open>(0, 1, 2)\<close>.
\<close>

theorem scenario_one_group:
  "find_vertex_patterns (scenario_buffer p1 p2 p3 p4 p5 p6) =
     Inr [\<lparr> pattern = pattern1, start = 0, XX = 3,
             vertices = [(0, 0, 0), (0, 0, 0), (0, 0, 0)],
             active_faces = [Face (1, 2, 3) 0], inactive_faces = [], uvs = [],
             vertices_offset = 4, vertices_end = 22, uvs_span = None,
             faces_offset = 22, faces_end = 29 \<rparr>]
   \<and> parse (Some (scenario_buffer p1 p2 p3 p4 p5 p6)) =
     Inr \<lparr> vertex_groups =
             [\<lparr> grp = scenario_group, base_index = 0,
                mesh_active_faces = [(0, 1, 2)], mesh_inactive_faces = [] \<rparr>],
           parser_vertices = [(0, 0, 0), (0, 0, 0), (0, 0, 0)] \<rparr>"
proof -
  have "remap_loop [scenario_group] [] [] =
     Inr \<lparr> vertex_groups =
             [\<lparr> grp = scenario_group, base_index = 0,
                mesh_active_faces = [(0, 1, 2)], mesh_inactive_faces = [] \<rparr>],
           parser_vertices = [(0, 0, 0), (0, 0, 0), (0, 0, 0)] \<rparr>"
    by (simp add: scenario_group_def Let_def)
  then show ?thesis
    using scenario_scan [of p1 p2 p3 p4 p5 p6]
    by (simp add: parse_def scenario_group_def)
qed

text \<open>
  C2. Every group of a successful scan has a count \<open>N \<le> 42\<close> and exactly
  \<open>N - 2\<close> face records, active and inactive together, when \<open>N \<ge> 2\<close>, none when
  \<open>N\<close> is 0 or 1: as many as the face loop has iterations, so the test
  \<open>v3 > XX\<close> drops none.
\<close>

theorem face_count:
  assumes "find_vertex_patterns data = Inr gs" and "g \<in> set gs"
  shows "XX g \<le> 0x2A
    \<and> length (active_faces g) + length (inactive_faces g) = (if 2 \<le> XX g then XX g - 2 else 0)
    \<and> length (active_faces g) + length (inactive_faces g)
        = length (py_range ((int (XX g) - 2) * 3) 3)"
proof -
  from scan_groups_ok [OF assms] obtain j j' where "group_ok j g j'" by blast
  then have "XX g \<le> 0x2A" and
    n: "length (active_faces g) + length (inactive_faces g) = XX g - 2"
    unfolding group_ok_def by simp_all
  moreover have "length (py_range ((int (XX g) - 2) * 3) 3) = XX g - 2"
    unfolding py_range_faces by simp
  ultimately show ?thesis by simp
qed

theorem face_count_witness:
  "find_vertex_patterns (scenario_buffer 0 0 0 0 0 0) = Inr [scenario_group]
   \<and> XX scenario_group = 3
   \<and> length (active_faces scenario_group) + length (inactive_faces scenario_group) = 1
   \<and> length (py_range ((int (XX scenario_group) - 2) * 3) 3) = 1"
proof -
  have s: "find_vertex_patterns (scenario_buffer 0 0 0 0 0 0) = Inr [scenario_group]"
    by (rule scenario_scan)
  have m: "scenario_group \<in> set [scenario_group]" by simp
  from face_count [OF s m] s show ?thesis
    by (simp add: scenario_group_def)
qed

subsection \<open>The header test\<close>

lemma prefix_distinct: "prefix p = prefix q \<Longrightarrow> p = q"
  by (cases p; cases q) simp_all


lemma try_pattern_other:
  "take 2 (drop i data) = prefix p \<Longrightarrow> q \<noteq> p \<Longrightarrow> try_pattern data i q = Skip"
  unfolding try_pattern_def by (auto dest: prefix_distinct)

lemma for_patterns_unfold:
  "for_patterns data i patterns =
     (case try_pattern data i pattern1 of Skip \<Rightarrow> try_pattern data i pattern2 | r \<Rightarrow> r)"
  unfolding patterns_def by (simp split: step.splits)

lemma for_patterns_prefix:
  assumes "take 2 (drop i data) = prefix p"
  shows "for_patterns data i patterns = try_pattern data i p"
proof (cases p)
  case pattern1
  with assms have "try_pattern data i pattern2 = Skip"
    by (intro try_pattern_other [of i data pattern1]) simp_all
  with pattern1 show ?thesis unfolding for_patterns_unfold by (simp split: step.splits)
next
  case pattern2
  with assms have "try_pattern data i pattern1 = Skip"
    by (intro try_pattern_other [of i data pattern2]) simp_all
  with pattern2 show ?thesis unfolding for_patterns_unfold by simp
qed

lemma for_patterns_header:
  assumes "vertex_header_at data i p n"
  shows "for_patterns data i patterns = decode_group data i p n"
proof -
  from assms have pre: "take 2 (drop i data) = prefix p" and
    "unat (data ! (i + 2)) = n" "n \<le> 0x2A" "data ! (i + 3) = 0x69"
    unfolding vertex_header_at_def by simp_all
  then have "try_pattern data i p = decode_group data i p n"
    unfolding try_pattern_def by (simp add: Let_def)
  with for_patterns_prefix [OF pre] show ?thesis by simp
qed

lemma not_Skip_header:
  assumes "int i < int (length data) - 4" and "for_patterns data i patterns \<noteq> Skip"
  shows "\<exists>p n. vertex_header_at data i p n"
proof -
  have "\<exists>p. try_pattern data i p \<noteq> Skip"
  proof (rule ccontr)
    assume "\<not> (\<exists>p. try_pattern data i p \<noteq> Skip)"
    then have "try_pattern data i pattern1 = Skip" "try_pattern data i pattern2 = Skip"
      by simp_all
    with assms(2) show False unfolding for_patterns_unfold by simp
  qed
  then obtain p where "try_pattern data i p \<noteq> Skip" ..
  then have "take 2 (drop i data) = prefix p" "unat (data ! (i + 2)) \<le> 0x2A" "data ! (i + 3) = 0x69"
    unfolding try_pattern_def Let_def by (auto split: if_splits)
  with assms(1) have "vertex_header_at data i p (unat (data ! (i + 2)))"
    unfolding vertex_header_at_def by simp
  then show ?thesis by blast
qed



text \<open>
  C10. A buffer in which no offset holds a vertex header of either grammar, and
  any buffer shorter than five bytes, parses successfully to the empty model: no
  group, no vertex, no face, and no error.
\<close>

theorem no_header_no_group:
  assumes "(\<forall>i p n. \<not> vertex_header_at data i p n) \<or> length data < 5"
  shows "find_vertex_patterns data = Inr []
    \<and> parse (Some data) = Inr \<lparr> vertex_groups = [], parser_vertices = [] \<rparr>"
proof -
  have "find_vertex_patterns_loop data 0 [] = Inr []"
  proof (rule loop_all_skip)
    fix j assume "int j < int (length data) - 4"
    with assms have "\<forall>p n. \<not> vertex_header_at data j p n" by auto
    with not_Skip_header [OF \<open>int j < int (length data) - 4\<close>]
    show "for_patterns data j patterns = Skip" by blast
  qed
  then show ?thesis by (simp add: find_vertex_patterns_def parse_def)
qed

theorem no_header_no_group_witness:
  "(\<forall>i p n. \<not> vertex_header_at [0, 0, 0, 0, 0, 0] i p n)
   \<and> find_vertex_patterns [0, 0, 0, 0, 0, 0] = Inr []
   \<and> parse (Some [0, 0, 0, 0, 0, 0]) = Inr \<lparr> vertex_groups = [], parser_vertices = [] \<rparr>
   \<and> parse (Some []) = Inr \<lparr> vertex_groups = [], parser_vertices = [] \<rparr>"
proof -
  have h: "\<not> vertex_header_at [0, 0, 0, 0, 0, 0] i p n" for i p n
  proof
    assume v: "vertex_header_at [0, 0, 0, 0, 0, 0] i p n"
    then have "data ! (i + 3) = (0x69 :: u8)" if "data = [0, 0, 0, 0, 0, 0]" for data
      using that unfolding vertex_header_at_def by simp
    moreover from v have "i + 3 < 6" unfolding vertex_header_at_def by simp
    then have "[0, 0, 0, 0, 0, 0 :: u8] ! (i + 3) = 0"
      by (simp add: nth_Cons split: nat.splits)
    ultimately show False by simp
  qed
  then have a: "(\<forall>i p n. \<not> vertex_header_at [0, 0, 0, 0, 0, 0] i p n) \<or> length [0, 0, 0, 0, 0, 0 :: u8] < 5"
    by blast
  have b: "(\<forall>i p n. \<not> vertex_header_at [] i p n) \<or> length ([] :: u8 list) < 5"
    by simp
  from no_header_no_group [OF a] no_header_no_group [OF b] h show ?thesis by simp
qed

subsection \<open>Fatal errors\<close>

text \<open>The scan is deterministic: of two states it comes to, the one with the
  smaller cursor steps towards the other.\<close>

lemma reach_between:
  "scan_reaches data a ga \<Longrightarrow> scan_reaches data b gb \<Longrightarrow> a < b \<Longrightarrow>
   int a < int (length data) - 4 \<and>
   ((for_patterns data a patterns = Skip \<and> a + 1 \<le> b) \<or>
    (\<exists>g a'. for_patterns data a patterns = Accept g a' \<and> a' \<le> b))"
proof (induction "a + b" arbitrary: a b ga gb rule: less_induct)
  case less
  from less.prems(2) show ?case
  proof (cases rule: scan_reaches.cases)
    case reach_start
    with less.prems(3) show ?thesis by simp
  next
    case (reach_skip j)
    then have b: "b = j + 1" and rj: "scan_reaches data j gb"
      and gj: "int j < int (length data) - 4" and sj: "for_patterns data j patterns = Skip"
      by simp_all
    show ?thesis
    proof (cases "a = j")
      case True
      with gj sj b show ?thesis by simp
    next
      case False
      with less.prems(3) b have aj: "a < j" by simp
      then have "a + j < a + b" using b by simp
      from less.hyps [OF this less.prems(1) rj aj] b show ?thesis by auto
    qed
  next
    case (reach_accept j gj g)
    then have b: "scan_reaches data j gj" and gd: "int j < int (length data) - 4"
      and ac: "for_patterns data j patterns = Accept g b"
      by simp_all
    from accept_progress [OF ac] have jb: "j < b" by simp
    show ?thesis
    proof (cases "a = j")
      case True
      with gd ac show ?thesis by auto
    next
      case False
      show ?thesis
      proof (cases "a < j")
        case True
        then have "a + j < a + b" using jb by simp
        from less.hyps [OF this less.prems(1) b True] jb show ?thesis by auto
      next
        case nlt: False
        with False have ja: "j < a" by simp
        then have "j + a < a + b" using jb by simp
        from less.hyps [OF this b less.prems(1) ja] ac have "b \<le> a" by auto
        with less.prems(3) show ?thesis by simp
      qed
    qed
  qed
qed

lemma fail_is_last:
  assumes "scan_reaches data i groups" and "for_patterns data i patterns = Fail e"
    and "scan_reaches data k gk"
  shows "k \<le> i"
proof (rule ccontr)
  assume "\<not> k \<le> i"
  then have "i < k" by simp
  from reach_between [OF assms(1,3) this] assms(2) show False by auto
qed

lemma reaches_fail:
  assumes "scan_reaches data i groups" and "int i < int (length data) - 4"
    and "for_patterns data i patterns = Fail e"
  shows "find_vertex_patterns data = Inl (e, groups) \<and> parse (Some data) = Inl e"
proof -
  have "find_vertex_patterns data = Inl (e, groups)"
    using reaches_loop [OF assms(1)] loop_fail [OF assms(2,3)] by simp
  then show ?thesis by (simp add: parse_def)
qed

lemma read_uvs_result:
  assumes "uv_header_at data q p n \<longrightarrow> q + 4 + 4 * n \<le> length data"
  shows "\<exists>us sp. read_uvs data p n q =
     Inr (us, sp, if uv_header_at data q p n then q + 4 + 4 * n else q)"
proof (cases "uv_header_at data q p n")
  case False
  then show ?thesis unfolding read_uvs_def uv_header_at_def by (simp add: Let_def)
next
  case True
  with assms have fit: "q + 4 + 4 * n \<le> length data" by simp
  have "\<forall>j\<in>set (py_range (int (n * 4)) 4). q + 4 + j + 4 \<le> length data"
    using fit py_range_mult [of n 3] by auto
  from uvs_loop_ok [OF this] obtain us where
    "uvs_loop data (q + 4) (py_range (int (n * 4)) 4) [] = Inr us" by blast
  with True fit show ?thesis
    unfolding read_uvs_def uv_header_at_def by (simp add: Let_def mult.commute)
qed

text \<open>
  C3, as the code has it. When the scan tests an offset (more than four bytes
  remain from it) where a grammar's vertex header matches with count \<open>N\<close> and
  fewer than \<open>6 N\<close> bytes follow the header, it fails with the error "Corrupted or
  incomplete PCK file (vertices)": the group list stays as it was on reaching
  the offset, so the group being decoded is not appended, no later offset is
  tested, and \<open>parse\<close> fails with the same error.
\<close>

theorem truncated_vertex_block:
  assumes "scan_reaches data i groups"
    and "int i < int (length data) - 4"
    and "vertex_header_at data i p n"
    and "length data < i + 4 + 6 * n"
  shows "find_vertex_patterns data = Inl (CorruptedVertices, groups)
    \<and> parse (Some data) = Inl CorruptedVertices
    \<and> (\<forall>k. offset_tested data k \<longrightarrow> k \<le> i)"
proof -
  have "decode_group data i p n = Fail CorruptedVertices"
    using assms(4) unfolding decode_group_def by (simp add: Let_def mult.commute)
  with for_patterns_header [OF assms(3)]
  have f: "for_patterns data i patterns = Fail CorruptedVertices" by simp
  have "k \<le> i" if "offset_tested data k" for k
  proof -
    from that obtain gk where "scan_reaches data k gk"
      unfolding offset_tested_def by blast
    from fail_is_last [OF assms(1) f this] show ?thesis .
  qed
  with reaches_fail [OF assms(1,2) f] show ?thesis by blast
qed

text \<open>
  C4. When the scan stands at an offset where a vertex header matches, the
  vertex block fits the buffer, a UV block that follows fits too, and the
  grammar's face signature for the same count occurs nowhere from the end of
  that block on, it fails with "Face pattern not found", and so does \<open>parse\<close>:
  no model is produced and the group is not skipped.
\<close>

theorem missing_face_signature:
  assumes "scan_reaches data i groups"
    and "int i < int (length data) - 4"
    and "vertex_header_at data i p n"
    and "i + 4 + 6 * n \<le> length data"
    and "uv_header_at data (i + 4 + 6 * n) p n \<longrightarrow> i + 4 + 6 * n + 4 + 4 * n \<le> length data"
    and "\<forall>q\<ge>block_end data i p n. \<not> occurs_at data (face_signature p n) q"
  shows "find_vertex_patterns data = Inl (FacePatternNotFound, groups)
    \<and> parse (Some data) = Inl FacePatternNotFound"
proof -
  have "\<forall>j\<in>set (py_range (int (n * 6)) 6). i + 4 + j + 6 \<le> length data"
    using assms(4) py_range_mult [of n 5] by auto
  from vertices_loop_ok [OF this] obtain vs where
    vs: "vertices_loop data (i + 4) (py_range (int (n * 6)) 6) [] = Inr vs" by blast
  from read_uvs_result [OF assms(5)] obtain us sp where
    "read_uvs data p n (i + 4 + 6 * n) = Inr (us, sp, block_end data i p n)"
    unfolding block_end_def by (auto simp: add.assoc)
  then have ru: "read_uvs data p n (i + 4 + n * 6) = Inr (us, sp, block_end data i p n)"
    by (simp add: mult.commute)
  have "face_signature p n \<noteq> []" unfolding face_signature_def by simp
  from find_bytes_None [OF this] assms(6)
  have "find_bytes data (face_signature p n) (block_end data i p n) = None" by simp
  then have fb: "find_bytes data (faces_prefix p @ [of_nat n] @ [0x6A]) (block_end data i p n) = None"
    unfolding face_signature_def by simp
  have "decode_group data i p n = Fail FacePatternNotFound"
    using assms(4) vs ru fb unfolding decode_group_def by (simp add: Let_def mult.commute)
  with for_patterns_header [OF assms(3)]
  have "for_patterns data i patterns = Fail FacePatternNotFound" by simp
  from reaches_fail [OF assms(1,2) this] show ?thesis .
qed

theorem truncated_vertex_block_witness:
  "scan_reaches truncated_buffer 35 [scenario_group]
   \<and> vertex_header_at truncated_buffer 35 pattern1 5
   \<and> length truncated_buffer = 46
   \<and> find_vertex_patterns truncated_buffer = Inl (CorruptedVertices, [scenario_group])
   \<and> parse (Some truncated_buffer) = Inl CorruptedVertices
   \<and> \<not> offset_tested truncated_buffer 40"
proof -
  have len: "length truncated_buffer = 46"
    by (simp add: truncated_buffer_def scenario_buffer_def)
  have r1: "py_range 18 6 = [0, 6, 12]" by code_simp
  have r2: "py_range 3 3 = [0]" by code_simp
  have acc: "for_patterns truncated_buffer 0 patterns = Accept scenario_group 35"
    unfolding truncated_buffer_def scenario_buffer_def scenario_group_def patterns_def
    by (simp add: try_pattern_def decode_group_def read_uvs_def r1 r2 find_bytes_def
        occurs_at_def unpack_hhh_def unpack_BBB_def le_i16_def Let_def)
  have "scan_reaches truncated_buffer 35 ([] @ [scenario_group])"
    by (rule reach_accept [OF reach_start _ acc]) (simp add: len)
  then have r: "scan_reaches truncated_buffer 35 [scenario_group]" by simp
  have g: "int 35 < int (length truncated_buffer) - 4" by (simp add: len)
  have h: "vertex_header_at truncated_buffer 35 pattern1 5"
    unfolding vertex_header_at_def truncated_buffer_def scenario_buffer_def by simp
  have t: "length truncated_buffer < 35 + 4 + 6 * 5" by (simp add: len)
  from truncated_vertex_block [OF r g h t] have
    "find_vertex_patterns truncated_buffer = Inl (CorruptedVertices, [scenario_group])"
    "parse (Some truncated_buffer) = Inl CorruptedVertices"
    "offset_tested truncated_buffer 40 \<longrightarrow> (40 :: nat) \<le> 35"
    by blast+
  with r h len show ?thesis by simp
qed

text \<open>
  C3 as stated fails on the four bytes \<open>EE 00 05 69\<close>: a vertex header of
  pattern 1 with count 5 stands at offset 0 and no byte follows it, yet the loop
  never tests the offset and the parse succeeds with no group.
\<close>

theorem bare_header_is_no_error:
  "vertex_header_at [0xEE, 0x00, 0x05, 0x69] 0 pattern1 5
   \<and> length [0xEE, 0x00, 0x05, 0x69 :: u8] < 0 + 4 + 6 * 5
   \<and> find_vertex_patterns [0xEE, 0x00, 0x05, 0x69] = Inr []
   \<and> parse (Some [0xEE, 0x00, 0x05, 0x69]) = Inr \<lparr> vertex_groups = [], parser_vertices = [] \<rparr>"
  by (simp add: vertex_header_at_def find_vertex_patterns_def parse_def loop_stop)

theorem missing_face_signature_witness:
  "scan_reaches [0xEE, 0x00, 0x01, 0x69, 1, 0, 2, 0, 3, 0, 7] 0 []
   \<and> vertex_header_at [0xEE, 0x00, 0x01, 0x69, 1, 0, 2, 0, 3, 0, 7] 0 pattern1 1
   \<and> block_end [0xEE, 0x00, 0x01, 0x69, 1, 0, 2, 0, 3, 0, 7] 0 pattern1 1 = 10
   \<and> find_vertex_patterns [0xEE, 0x00, 0x01, 0x69, 1, 0, 2, 0, 3, 0, 7]
       = Inl (FacePatternNotFound, [])
   \<and> parse (Some [0xEE, 0x00, 0x01, 0x69, 1, 0, 2, 0, 3, 0, 7]) = Inl FacePatternNotFound"
proof -
  let ?d = "[0xEE, 0x00, 0x01, 0x69, 1, 0, 2, 0, 3, 0, 7] :: u8 list"
  have r: "scan_reaches ?d 0 []" by (rule reach_start)
  have g: "int 0 < int (length ?d) - 4" by simp
  have h: "vertex_header_at ?d 0 pattern1 1" unfolding vertex_header_at_def by simp
  have f: "0 + 4 + 6 * 1 \<le> length ?d" by simp
  have nu: "\<not> uv_header_at ?d (0 + 4 + 6 * 1) pattern1 1" unfolding uv_header_at_def by simp
  then have u: "uv_header_at ?d (0 + 4 + 6 * 1) pattern1 1 \<longrightarrow> 0 + 4 + 6 * 1 + 4 + 4 * 1 \<le> length ?d"
    by simp
  have be: "block_end ?d 0 pattern1 1 = 10" using nu unfolding block_end_def by simp
  have n: "\<forall>q\<ge>block_end ?d 0 pattern1 1. \<not> occurs_at ?d (face_signature pattern1 1) q"
  proof (intro allI impI notI)
    fix q assume "block_end ?d 0 pattern1 1 \<le> q" and o: "occurs_at ?d (face_signature pattern1 1) q"
    then have "10 \<le> q" using be by simp
    moreover have "face_signature pattern1 1 \<noteq> []" by (simp add: face_signature_def)
    from occurs_at_bound [OF this o] have "q + 4 \<le> 11" by (simp add: face_signature_def)
    ultimately show False by simp
  qed
  from missing_face_signature [OF r g h f u n] r h be show ?thesis by simp
qed

subsection \<open>Which offsets are tested\<close>

lemma loop_Inl_groups:
  "find_vertex_patterns_loop data i groups = Inl (e, gs) \<Longrightarrow> \<exists>new. gs = groups @ new"
proof (induction data i groups rule: find_vertex_patterns_loop.induct)
  case (1 data i groups)
  show ?case
  proof (cases "int i < int (length data) - 4")
    case False
    with "1.prems" show ?thesis by (simp add: loop_stop)
  next
    case True
    show ?thesis
    proof (cases "for_patterns data i patterns")
      case Skip
      with True "1.prems" have "find_vertex_patterns_loop data (i + 1) groups = Inl (e, gs)"
        by (simp add: loop_skip)
      from "1.IH"(1) [OF True Skip this] show ?thesis .
    next
      case (Fail e')
      with True "1.prems" show ?thesis by (simp add: loop_fail)
    next
      case (Accept g i')
      with True "1.prems" have "find_vertex_patterns_loop data i' (groups @ [g]) = Inl (e, gs)"
        by (simp add: loop_accept)
      from "1.IH"(2) [OF True Accept this] show ?thesis by auto
    qed
  qed
qed

lemma tested_step:
  assumes "scan_reaches data i groups" and "int i < int (length data) - 4"
  shows "offset_tested data i"
  using assms unfolding offset_tested_def by blast

text \<open>A successful run of the loop tests every offset it does not jump over.\<close>

lemma loop_covers:
  "find_vertex_patterns_loop data i groups = Inr gs \<Longrightarrow> scan_reaches data i groups \<Longrightarrow>
   i \<le> k \<Longrightarrow> k + 4 < length data \<Longrightarrow> offset_tested data k \<or> jumped_over gs k"
proof (induction data i groups rule: find_vertex_patterns_loop.induct)
  case (1 data i groups)
  from "1.prems"(3,4) have guard: "int i < int (length data) - 4" by simp
  have here: "offset_tested data i" by (rule tested_step [OF "1.prems"(2) guard])
  show ?case
  proof (cases "for_patterns data i patterns")
    case Skip
    show ?thesis
    proof (cases "k = i")
      case True
      with here show ?thesis by simp
    next
      case False
      with "1.prems"(3) have k: "i + 1 \<le> k" by simp
      from guard Skip "1.prems"(1) have r: "find_vertex_patterns_loop data (i + 1) groups = Inr gs"
        by (simp add: loop_skip)
      have s: "scan_reaches data (i + 1) groups"
        by (rule reach_skip [OF "1.prems"(2) guard Skip])
      from "1.IH"(1) [OF guard Skip r s k "1.prems"(4)] show ?thesis .
    qed
  next
    case (Fail e)
    with guard "1.prems"(1) show ?thesis by (simp add: loop_fail)
  next
    case (Accept g i')
    from guard Accept "1.prems"(1) have r: "find_vertex_patterns_loop data i' (groups @ [g]) = Inr gs"
      by (simp add: loop_accept)
    have s: "scan_reaches data i' (groups @ [g])"
      by (rule reach_accept [OF "1.prems"(2) guard Accept])
    from loop_groups [OF r] have g: "g \<in> set gs" by auto
    from accepted_group_ok [OF Accept] have st: "start g = i" and cu: "int i' = cursor_after g"
      unfolding group_ok_def by simp_all
    show ?thesis
    proof (cases "i' \<le> k")
      case True
      from "1.IH"(2) [OF guard Accept r s True "1.prems"(4)] show ?thesis .
    next
      case False
      show ?thesis
      proof (cases "k = i")
        case True
        with here show ?thesis by simp
      next
        case ne: False
        with "1.prems"(3) False have "start g < k" "int k < cursor_after g"
          using st cu by simp_all
        with g have "jumped_over gs k" unfolding jumped_over_def by blast
        then show ?thesis by simp
      qed
    qed
  qed
qed

text \<open>A failing run fails at a tested offset and tested every offset before it
  that it did not jump over.\<close>

lemma loop_fails_at:
  "find_vertex_patterns_loop data i groups = Inl (e, gs) \<Longrightarrow> scan_reaches data i groups \<Longrightarrow>
   \<exists>f\<ge>i. scan_reaches data f gs \<and> int f < int (length data) - 4 \<and>
     for_patterns data f patterns = Fail e \<and>
     (\<forall>k. i \<le> k \<and> k < f \<longrightarrow> offset_tested data k \<or> jumped_over gs k)"
proof (induction data i groups rule: find_vertex_patterns_loop.induct)
  case (1 data i groups)
  show ?case
  proof (cases "int i < int (length data) - 4")
    case False
    with "1.prems"(1) show ?thesis by (simp add: loop_stop)
  next
    case guard: True
    have here: "offset_tested data i" by (rule tested_step [OF "1.prems"(2) guard])
    show ?thesis
    proof (cases "for_patterns data i patterns")
      case Skip
      from guard Skip "1.prems"(1) have r: "find_vertex_patterns_loop data (i + 1) groups = Inl (e, gs)"
        by (simp add: loop_skip)
      have s: "scan_reaches data (i + 1) groups"
        by (rule reach_skip [OF "1.prems"(2) guard Skip])
      from "1.IH"(1) [OF guard Skip r s] obtain f where f: "i + 1 \<le> f" "scan_reaches data f gs"
        "int f < int (length data) - 4" "for_patterns data f patterns = Fail e"
        and cov: "\<forall>k. i + 1 \<le> k \<and> k < f \<longrightarrow> offset_tested data k \<or> jumped_over gs k"
        by blast
      have "\<forall>k. i \<le> k \<and> k < f \<longrightarrow> offset_tested data k \<or> jumped_over gs k"
      proof (intro allI impI)
        fix k assume k: "i \<le> k \<and> k < f"
        show "offset_tested data k \<or> jumped_over gs k"
        proof (cases "k = i")
          case True
          with here show ?thesis by simp
        next
          case False
          with k have "i + 1 \<le> k \<and> k < f" by simp
          with cov show ?thesis by blast
        qed
      qed
      moreover from f(1) have "i \<le> f" by simp
      ultimately show ?thesis using f(2-4) by blast
    next
      case (Fail e')
      with guard "1.prems"(1) have "e' = e" "gs = groups" by (simp_all add: loop_fail)
      moreover have "\<forall>k. i \<le> k \<and> k < i \<longrightarrow> offset_tested data k \<or> jumped_over gs k"
        by auto
      ultimately show ?thesis using Fail guard "1.prems"(2) by (intro exI [of _ i]) simp
    next
      case (Accept g i')
      from guard Accept "1.prems"(1) have r: "find_vertex_patterns_loop data i' (groups @ [g]) = Inl (e, gs)"
        by (simp add: loop_accept)
      have s: "scan_reaches data i' (groups @ [g])"
        by (rule reach_accept [OF "1.prems"(2) guard Accept])
      from loop_Inl_groups [OF r] have g: "g \<in> set gs" by auto
      from accepted_group_ok [OF Accept] have st: "start g = i" and cu: "int i' = cursor_after g"
        unfolding group_ok_def by simp_all
      from accept_progress [OF Accept] have lt: "i < i'" by simp
      from "1.IH"(2) [OF guard Accept r s] obtain f where f: "i' \<le> f" "scan_reaches data f gs"
        "int f < int (length data) - 4" "for_patterns data f patterns = Fail e"
        and cov: "\<forall>k. i' \<le> k \<and> k < f \<longrightarrow> offset_tested data k \<or> jumped_over gs k"
        by blast
      have "\<forall>k. i \<le> k \<and> k < f \<longrightarrow> offset_tested data k \<or> jumped_over gs k"
      proof (intro allI impI)
        fix k assume k: "i \<le> k \<and> k < f"
        show "offset_tested data k \<or> jumped_over gs k"
        proof (cases "i' \<le> k")
          case True
          with k cov show ?thesis by blast
        next
          case False
          show ?thesis
          proof (cases "k = i")
            case True
            with here show ?thesis by simp
          next
            case ne: False
            with k False have "start g < k" "int k < cursor_after g" using st cu by simp_all
            with g have "jumped_over gs k" unfolding jumped_over_def by blast
            then show ?thesis by simp
          qed
        qed
      qed
      moreover from f(1) lt have "i \<le> f" by simp
      ultimately show ?thesis using f(2-4) by blast
    qed
  qed
qed

lemma accepted_header_starts_group:
  assumes "find_vertex_patterns data = Inr gs \<and> i + 4 < length data"
  shows "for_patterns data i patterns = Skip \<or> (\<exists>g\<in>set gs. start g = i) \<or> jumped_over gs i"
proof -
  from assms loop_covers [of data 0 "[]" gs i] reach_start [of data]
  have "offset_tested data i \<or> jumped_over gs i"
    by (simp add: find_vertex_patterns_def)
  then show ?thesis
  proof
    assume "offset_tested data i"
    then obtain before where r: "scan_reaches data i before"
      and g: "int i < int (length data) - 4"
      unfolding offset_tested_def by blast
    from reaches_loop [OF r] assms
    have l: "find_vertex_patterns_loop data i before = Inr gs" by simp
    show ?thesis
    proof (cases "for_patterns data i patterns")
      case Skip
      then show ?thesis by simp
    next
      case (Fail e)
      with l g show ?thesis by (simp add: loop_fail)
    next
      case (Accept h i')
      with l g have "find_vertex_patterns_loop data i' (before @ [h]) = Inr gs"
        by (simp add: loop_accept)
      from loop_groups [OF this] have "h \<in> set gs" by auto
      moreover from accepted_group_ok [OF Accept] have "start h = i"
        unfolding group_ok_def by simp
      ultimately show ?thesis by blast
    qed
  next
    assume "jumped_over gs i"
    then show ?thesis by simp
  qed
qed

text \<open>
  C7, as the code has it. The loop ends, returning the groups, as soon as four
  or fewer bytes remain from the cursor, and tests no such offset. The outcome
  of the scan is decided at each tested offset by the header test of both
  grammars there. A scan that succeeds has tested every offset with at least
  five bytes remaining, except those the cursor jumped over: the offsets
  strictly between the start of a returned group and the cursor that group
  left; so at every such offset either no header is accepted or one of the
  returned groups starts. A scan that fails has failed at a tested offset, and
  has tested every offset before it except those jumped over.
\<close>

theorem scan_tests_offsets:
  "(length data \<le> i + 4 \<longrightarrow>
      find_vertex_patterns_loop data i groups = Inr groups \<and> \<not> offset_tested data i)
   \<and> (offset_tested data i \<longrightarrow>
        (\<exists>before. scan_reaches data i before \<and>
           find_vertex_patterns data =
             (case for_patterns data i patterns of
                Skip \<Rightarrow> find_vertex_patterns_loop data (i + 1) before
              | Accept g i' \<Rightarrow> find_vertex_patterns_loop data i' (before @ [g])
              | Fail e \<Rightarrow> Inl (e, before))))
   \<and> (find_vertex_patterns data = Inr gs \<and> i + 4 < length data \<longrightarrow>
        offset_tested data i \<or> jumped_over gs i)
   \<and> (find_vertex_patterns data = Inr gs \<and> i + 4 < length data \<longrightarrow>
        for_patterns data i patterns = Skip \<or> (\<exists>g\<in>set gs. start g = i) \<or> jumped_over gs i)
   \<and> (find_vertex_patterns data = Inl (err, gs) \<longrightarrow>
        (\<exists>f. offset_tested data f \<and> for_patterns data f patterns = Fail err \<and>
           (\<forall>k<f. offset_tested data k \<or> jumped_over gs k)))"
proof -
  note e = accepted_header_starts_group [of data gs i]
  have a: "find_vertex_patterns_loop data i groups = Inr groups \<and> \<not> offset_tested data i"
    if "length data \<le> i + 4"
    using that by (simp add: loop_stop offset_tested_def)
  have b: "\<exists>before. scan_reaches data i before \<and>
           find_vertex_patterns data =
             (case for_patterns data i patterns of
                Skip \<Rightarrow> find_vertex_patterns_loop data (i + 1) before
              | Accept g i' \<Rightarrow> find_vertex_patterns_loop data i' (before @ [g])
              | Fail e \<Rightarrow> Inl (e, before))"
    if "offset_tested data i"
  proof -
    from that obtain before where r: "scan_reaches data i before"
      and g: "int i < int (length data) - 4"
      unfolding offset_tested_def by blast
    have "find_vertex_patterns data = find_vertex_patterns_loop data i before"
      by (rule reaches_loop [OF r])
    also have "\<dots> = (case for_patterns data i patterns of
                Skip \<Rightarrow> find_vertex_patterns_loop data (i + 1) before
              | Accept g i' \<Rightarrow> find_vertex_patterns_loop data i' (before @ [g])
              | Fail e \<Rightarrow> Inl (e, before))"
      using g by (subst find_vertex_patterns_loop.simps) simp
    finally show ?thesis using r by blast
  qed
  have c: "offset_tested data i \<or> jumped_over gs i"
    if "find_vertex_patterns data = Inr gs \<and> i + 4 < length data"
    using that loop_covers [of data 0 "[]" gs i] reach_start [of data]
    by (simp add: find_vertex_patterns_def)
  have d: "\<exists>f. offset_tested data f \<and> for_patterns data f patterns = Fail err \<and>
           (\<forall>k<f. offset_tested data k \<or> jumped_over gs k)"
    if "find_vertex_patterns data = Inl (err, gs)"
  proof -
    from that have "find_vertex_patterns_loop data 0 [] = Inl (err, gs)"
      by (simp add: find_vertex_patterns_def)
    from loop_fails_at [OF this reach_start] obtain f where
      "scan_reaches data f gs" "int f < int (length data) - 4"
      "for_patterns data f patterns = Fail err"
      "\<forall>k. 0 \<le> k \<and> k < f \<longrightarrow> offset_tested data k \<or> jumped_over gs k"
      by blast
    then show ?thesis
      using tested_step [of data f gs] by (intro exI [of _ f]) simp
  qed
  from a b c d e show ?thesis by blast
qed

theorem scan_tests_offsets_witness:
  "find_vertex_patterns trailing_buffer = Inr [scenario_group]
   \<and> length trailing_buffer = 43
   \<and> offset_tested trailing_buffer 35
   \<and> jumped_over [scenario_group] 20
   \<and> find_vertex_patterns_loop trailing_buffer 39 [scenario_group] = Inr [scenario_group]
   \<and> \<not> offset_tested trailing_buffer 39
   \<and> find_vertex_patterns truncated_buffer = Inl (CorruptedVertices, [scenario_group])
   \<and> (\<exists>f. offset_tested truncated_buffer f
          \<and> for_patterns truncated_buffer f patterns = Fail CorruptedVertices)"
proof -
  have len: "length trailing_buffer = 43"
    by (simp add: trailing_buffer_def scenario_buffer_def)
  have r1: "py_range 18 6 = [0, 6, 12]" by code_simp
  have r2: "py_range 3 3 = [0]" by code_simp
  have acc: "for_patterns trailing_buffer 0 patterns = Accept scenario_group 35"
    unfolding trailing_buffer_def scenario_buffer_def scenario_group_def patterns_def
    by (simp add: try_pattern_def decode_group_def read_uvs_def r1 r2 find_bytes_def
        occurs_at_def unpack_hhh_def unpack_BBB_def le_i16_def Let_def)
  have sk: "for_patterns trailing_buffer 35 patterns = Skip"
    "for_patterns trailing_buffer 36 patterns = Skip"
    "for_patterns trailing_buffer 37 patterns = Skip"
    "for_patterns trailing_buffer 38 patterns = Skip"
    unfolding trailing_buffer_def scenario_buffer_def for_patterns_unfold try_pattern_def
    by simp_all
  have s: "find_vertex_patterns trailing_buffer = Inr [scenario_group]"
    unfolding find_vertex_patterns_def
    by (simp add: loop_accept [OF _ acc] loop_skip [OF _ sk(1)] loop_skip [OF _ sk(2)]
        loop_skip [OF _ sk(3)] loop_skip [OF _ sk(4)] loop_stop len)
  have nj: "\<not> jumped_over [scenario_group] 35"
    by (simp add: jumped_over_def scenario_group_def cursor_after_def)
  have j: "jumped_over [scenario_group] 20"
    by (simp add: jumped_over_def scenario_group_def cursor_after_def)
  have t: "offset_tested trailing_buffer 35"
    using scan_tests_offsets [of trailing_buffer 35 "[]" "[scenario_group]"] s nj len by simp
  have e: "find_vertex_patterns_loop trailing_buffer 39 [scenario_group] = Inr [scenario_group]
      \<and> \<not> offset_tested trailing_buffer 39"
    using scan_tests_offsets [of trailing_buffer 39 "[scenario_group]"] len by simp
  have acc': "for_patterns truncated_buffer 0 patterns = Accept scenario_group 35"
    unfolding truncated_buffer_def scenario_buffer_def scenario_group_def patterns_def
    by (simp add: try_pattern_def decode_group_def read_uvs_def r1 r2 find_bytes_def
        occurs_at_def unpack_hhh_def unpack_BBB_def le_i16_def Let_def)
  have fl: "for_patterns truncated_buffer 35 patterns = Fail CorruptedVertices"
    unfolding truncated_buffer_def scenario_buffer_def patterns_def
    by (simp add: try_pattern_def decode_group_def Let_def)
  have len': "length truncated_buffer = 46"
    by (simp add: truncated_buffer_def scenario_buffer_def)
  have s': "find_vertex_patterns truncated_buffer = Inl (CorruptedVertices, [scenario_group])"
    unfolding find_vertex_patterns_def
    by (simp add: loop_accept [OF _ acc'] loop_fail [OF _ fl] len')
  from scan_tests_offsets [where data = truncated_buffer and err = CorruptedVertices
      and gs = "[scenario_group]"] s'
  have f: "\<exists>f. offset_tested truncated_buffer f
          \<and> for_patterns truncated_buffer f patterns = Fail CorruptedVertices"
    by blast
  from s len t j e s' f show ?thesis by blast
qed

text \<open>
  C7 as stated fails on the four bytes \<open>EE 00 00 69\<close>: four bytes remain at
  offset 0, a vertex header of pattern 1 stands there, and the scan ends without
  testing it, returning no group.
\<close>

theorem last_header_offset_not_tested:
  "0 + 4 \<le> length [0xEE, 0x00, 0x00, 0x69 :: u8]
   \<and> vertex_header_at [0xEE, 0x00, 0x00, 0x69] 0 pattern1 0
   \<and> \<not> offset_tested [0xEE, 0x00, 0x00, 0x69] 0
   \<and> find_vertex_patterns [0xEE, 0x00, 0x00, 0x69] = Inr []"
  by (simp add: vertex_header_at_def offset_tested_def find_vertex_patterns_def loop_stop)

subsection \<open>Groups without faces and the cursor\<close>

text \<open>
  C6, on a buffer with two groups of count 0. The scan accepts both; the second
  starts at offset 8, inside the six padding bytes (offsets 8 to 13) that follow
  the face signature of the first, because \<open>(XX - 2) * 3\<close> is \<open>-6\<close> and takes the
  skip of the padding back.
\<close>

theorem overlap_on_count_zero:
  "find_vertex_patterns overlap_buffer = Inr [overlap_first, overlap_second]
   \<and> cursor_after overlap_first = 8
   \<and> faces_offset overlap_first + 4 \<le> start overlap_second
   \<and> start overlap_second < faces_offset overlap_first + 4 + 6"
proof -
  have len: "length overlap_buffer = 17" by (simp add: overlap_buffer_def)
  have r0: "py_range 0 6 = []" by code_simp
  have r1: "py_range (- 6) 3 = []" by code_simp
  have a0: "for_patterns overlap_buffer 0 patterns = Accept overlap_first 8"
    unfolding overlap_buffer_def overlap_first_def patterns_def
    by (simp add: try_pattern_def decode_group_def read_uvs_def r0 r1 find_bytes_def
        occurs_at_def Let_def)
  have a8: "for_patterns overlap_buffer 8 patterns = Accept overlap_second 16"
    unfolding overlap_buffer_def overlap_second_def patterns_def
    by (simp add: try_pattern_def decode_group_def read_uvs_def r0 r1 find_bytes_def
        occurs_at_def Let_def)
  have "find_vertex_patterns overlap_buffer = Inr [overlap_first, overlap_second]"
    unfolding find_vertex_patterns_def
    by (simp add: loop_accept [OF _ a0] loop_accept [OF _ a8] loop_stop len)
  then show ?thesis
    by (simp add: cursor_after_def overlap_first_def overlap_second_def)
qed

subsection \<open>Remapping\<close>

lemma adjust_faces_local:
  assumes "\<forall>f\<in>set fs. local_face k f" and "base + k \<le> n"
  shows "adjust_faces base n fs out = Inr (out @ map (to_global base \<circ> indices) fs)"
  using assms(1)
proof (induction fs arbitrary: out)
  case Nil
  then show ?case by simp
next
  case (Cons f fs)
  from Cons.prems obtain a v where f: "f = Face (a, a + 1, a + 2) v" and a: "1 \<le> a" "a + 2 \<le> int k"
    unfolding local_face_def by auto
  from a assms(2) have "0 \<le> a - 1 + int base" "a + 2 - 1 + int base < int n" by simp_all
  with f Cons show ?case by (simp add: to_global_def)
qed

lemma to_global_in_range:
  assumes "local_face k f" and "base + k \<le> n"
  shows "in_range n (to_global base (indices f))"
proof -
  from assms(1) obtain a v where f: "f = Face (a, a + 1, a + 2) v" and a: "1 \<le> a" "a + 2 \<le> int k"
    unfolding local_face_def by auto
  with assms(2) show ?thesis by (simp add: to_global_def in_range_def)
qed

lemma remap_loop_spec:
  assumes "groups_local gs"
  shows "remap_loop gs verts out =
     Inr \<lparr> vertex_groups = out @ remap_spec gs (length verts),
           parser_vertices = verts @ concat (map vertices gs) \<rparr>"
  using assms
proof (induction gs arbitrary: verts out)
  case Nil
  then show ?case by simp
next
  case (Cons g gs)
  from Cons.prems have len: "length (vertices g) = XX g"
    and act: "\<forall>f\<in>set (active_faces g). local_face (XX g) f"
    and inact: "\<forall>f\<in>set (inactive_faces g). local_face (XX g) f"
    and rest: "groups_local gs"
    unfolding groups_local_def by auto
  have fit: "length verts + XX g \<le> length (verts @ vertices g)" using len by simp
  have a: "adjust_faces (length verts) (length (verts @ vertices g)) (active_faces g) [] =
      Inr (map (to_global (length verts) \<circ> indices) (active_faces g))"
    using adjust_faces_local [OF act fit, of "[]"] by simp
  have b: "adjust_faces (length verts) (length (verts @ vertices g)) (inactive_faces g) [] =
      Inr (map (to_global (length verts) \<circ> indices) (inactive_faces g))"
    using adjust_faces_local [OF inact fit, of "[]"] by simp
  show ?case
    using a b Cons.IH [OF rest] by (simp add: Let_def)
qed

lemma remap_spec_in_range:
  assumes "groups_local gs"
  shows "\<forall>mg\<in>set (remap_spec gs base).
     \<forall>t\<in>set (mesh_active_faces mg) \<union> set (mesh_inactive_faces mg).
       in_range (base + length (concat (map vertices gs))) t"
  using assms
proof (induction gs arbitrary: base)
  case Nil
  then show ?case by simp
next
  case (Cons g gs)
  from Cons.prems have len: "length (vertices g) = XX g"
    and faces: "\<forall>f\<in>set (active_faces g) \<union> set (inactive_faces g). local_face (XX g) f"
    and rest: "groups_local gs"
    unfolding groups_local_def by auto
  have fit: "base + XX g \<le> base + length (concat (map vertices (g # gs)))"
    using len by simp
  have hd: "in_range (base + length (concat (map vertices (g # gs)))) (to_global base (indices f))"
    if "f \<in> set (active_faces g) \<union> set (inactive_faces g)" for f
    using to_global_in_range [OF _ fit] faces that by blast
  have tl: "\<forall>mg\<in>set (remap_spec gs (base + length (vertices g))).
     \<forall>t\<in>set (mesh_active_faces mg) \<union> set (mesh_inactive_faces mg).
       in_range (base + length (concat (map vertices (g # gs)))) t"
    using Cons.IH [OF rest, of "base + length (vertices g)"] by (simp add: add.assoc)
  show ?case using hd tl by auto
qed

lemma scan_groups_local:
  assumes "find_vertex_patterns data = Inr gs"
  shows "groups_local gs"
  unfolding groups_local_def
proof
  fix g assume "g \<in> set gs"
  from scan_groups_ok [OF assms this] obtain j j' where "group_ok j g j'" by blast
  then show "length (vertices g) = XX g \<and>
     (\<forall>f\<in>set (active_faces g) \<union> set (inactive_faces g). local_face (XX g) f)"
    unfolding group_ok_def by simp
qed

text \<open>
  C8. On the groups of a successful scan \<open>parse\<close> does not fail; it returns the
  concatenated vertices and, for every group, all of its faces, none dropped,
  each index translated by \<open>local_index - 1 + base\<close> with \<open>base\<close> the number of
  vertices of the groups before; every translated index lies in
  \<open>0 \<le> index < length\<close> of the global vertex array.
\<close>

theorem remap_keeps_every_face:
  assumes "find_vertex_patterns data = Inr gs"
  shows "parse (Some data) =
       Inr \<lparr> vertex_groups = remap_spec gs 0, parser_vertices = concat (map vertices gs) \<rparr>
    \<and> (\<forall>mg\<in>set (remap_spec gs 0).
         \<forall>t\<in>set (mesh_active_faces mg) \<union> set (mesh_inactive_faces mg).
           in_range (length (concat (map vertices gs))) t)"
proof -
  have l: "groups_local gs" by (rule scan_groups_local [OF assms])
  have "remap_loop gs [] [] =
     Inr \<lparr> vertex_groups = remap_spec gs 0, parser_vertices = concat (map vertices gs) \<rparr>"
    using remap_loop_spec [OF l, of "[]" "[]"] by simp
  with assms have "parse (Some data) =
     Inr \<lparr> vertex_groups = remap_spec gs 0, parser_vertices = concat (map vertices gs) \<rparr>"
    by (simp add: parse_def)
  moreover from remap_spec_in_range [OF l, of 0]
  have "\<forall>mg\<in>set (remap_spec gs 0).
         \<forall>t\<in>set (mesh_active_faces mg) \<union> set (mesh_inactive_faces mg).
           in_range (length (concat (map vertices gs))) t"
    by simp
  ultimately show ?thesis by blast
qed

theorem remap_keeps_every_face_witness:
  "find_vertex_patterns (scenario_buffer 0 0 0 0 0 0) = Inr [scenario_group]
   \<and> parse (Some (scenario_buffer 0 0 0 0 0 0)) =
       Inr \<lparr> vertex_groups = remap_spec [scenario_group] 0,
             parser_vertices = concat (map vertices [scenario_group]) \<rparr>
   \<and> remap_spec [scenario_group] 0 =
       [\<lparr> grp = scenario_group, base_index = 0,
          mesh_active_faces = [(0, 1, 2)], mesh_inactive_faces = [] \<rparr>]
   \<and> in_range (length (concat (map vertices [scenario_group]))) (0, 1, 2)"
proof -
  have s: "find_vertex_patterns (scenario_buffer 0 0 0 0 0 0) = Inr [scenario_group]"
    by (rule scenario_scan)
  have r: "remap_spec [scenario_group] 0 =
       [\<lparr> grp = scenario_group, base_index = 0,
          mesh_active_faces = [(0, 1, 2)], mesh_inactive_faces = [] \<rparr>]"
    by (simp add: scenario_group_def to_global_def)
  have i: "in_range (length (concat (map vertices [scenario_group]))) (0, 1, 2)"
    by (simp add: scenario_group_def in_range_def)
  from remap_keeps_every_face [OF s] have
    "parse (Some (scenario_buffer 0 0 0 0 0 0)) =
       Inr \<lparr> vertex_groups = remap_spec [scenario_group] 0,
             parser_vertices = concat (map vertices [scenario_group]) \<rparr>" ..
  with s r i show ?thesis by blast
qed

subsection \<open>The exported lines\<close>

declare str_nat.simps [simp del]

lemma length_build_global_uvs: "length (build_global_uvs gs n) = n"
  unfolding build_global_uvs_def by (simp add: Let_def)

lemma build_global_uvs_take_pad:
  "build_global_uvs gs n =
     take n (concat (map group_uvs gs)) @ replicate (n - length (concat (map group_uvs gs))) (0, 0)"
  unfolding build_global_uvs_def by (simp add: Let_def)

lemma v_line_kind: "is_v_line (v_line str_f32 s v)" "\<not> is_vt_line (v_line str_f32 s v)"
  unfolding is_v_line_def is_vt_line_def v_line_def by (simp_all split: prod.splits)

lemma vt_line_kind: "is_vt_line (vt_line uv)" "\<not> is_v_line (vt_line uv)"
  unfolding is_v_line_def is_vt_line_def vt_line_def by (simp_all split: prod.splits)

lemma f_line_kind: "\<not> is_vt_line (f_line t)" "\<not> is_v_line (f_line t)"
  unfolding is_v_line_def is_vt_line_def f_line_def by (simp_all split: prod.splits)

lemma filter_none: "(\<And>x. x \<in> set xs \<Longrightarrow> \<not> P x) \<Longrightarrow> filter P xs = []"
  by (induction xs) simp_all

lemma filter_all: "(\<And>x. x \<in> set xs \<Longrightarrow> P x) \<Longrightarrow> filter P xs = xs"
  by (induction xs) simp_all

lemma count_v_lines:
  "length (filter is_v_line (obj_lines str_f32 s gs vs)) = length vs"
proof -
  have "filter is_v_line (map (v_line str_f32 s) vs) = map (v_line str_f32 s) vs"
    by (rule filter_all) (auto simp: v_line_kind)
  moreover have "filter is_v_line (map vt_line (build_global_uvs gs (length vs))) = []"
    by (rule filter_none) (auto simp: vt_line_kind)
  moreover have "filter is_v_line (concat (map (\<lambda>g. map f_line (mesh_active_faces g)) gs)) = []"
    by (rule filter_none) (auto simp: f_line_kind)
  ultimately show ?thesis unfolding obj_lines_def by simp
qed

lemma count_vt_lines:
  "length (filter is_vt_line (obj_lines str_f32 s gs vs)) = length vs"
proof -
  have "filter is_vt_line (map (v_line str_f32 s) vs) = []"
    by (rule filter_none) (auto simp: v_line_kind)
  moreover have "filter is_vt_line (map vt_line (build_global_uvs gs (length vs)))
      = map vt_line (build_global_uvs gs (length vs))"
    by (rule filter_all) (auto simp: vt_line_kind)
  moreover have "filter is_vt_line (concat (map (\<lambda>g. map f_line (mesh_active_faces g)) gs)) = []"
    by (rule filter_none) (auto simp: f_line_kind)
  ultimately show ?thesis unfolding obj_lines_def by (simp add: length_build_global_uvs)
qed

text \<open>
  C9. For any model and vertex array the exported text has as many \<open>vt\<close> lines
  as \<open>v\<close> lines, one per vertex: a group whose UV count differs from its vertex
  count contributes \<open>(0, 0)\<close> once per vertex in place of its UVs, the assembled UV
  list is cut or padded with \<open>(0, 0)\<close> to the number of vertices, and the export
  of a parsed model with a chosen path always builds its lines.
\<close>

theorem vt_lines_match_v_lines:
  "length (filter is_vt_line (obj_lines str_f32 s (vertex_groups m) vs))
     = length (filter is_v_line (obj_lines str_f32 s (vertex_groups m) vs))
   \<and> length (filter is_v_line (obj_lines str_f32 s (vertex_groups m) vs)) = length vs
   \<and> (length (uvs (grp g)) \<noteq> length (vertices (grp g)) \<longrightarrow>
        group_uvs g = replicate (length (vertices (grp g))) (0, 0))
   \<and> build_global_uvs (vertex_groups m) (length vs) =
        take (length vs) (concat (map group_uvs (vertex_groups m)))
        @ replicate (length vs - length (concat (map group_uvs (vertex_groups m)))) (0, 0)
   \<and> export_to_obj str_f32 s (Some m) (Some path) vs
        = Some (obj_lines str_f32 s (vertex_groups m) vs)"
proof -
  have "group_uvs g = replicate (length (vertices (grp g))) (0, 0)"
    if "length (uvs (grp g)) \<noteq> length (vertices (grp g))"
    using that unfolding group_uvs_def by simp
  moreover have "export_to_obj str_f32 s (Some m) (Some path) vs
        = Some (obj_lines str_f32 s (vertex_groups m) vs)"
    unfolding export_to_obj_def by simp
  ultimately show ?thesis
    using count_v_lines [of str_f32 s "vertex_groups m" vs]
      count_vt_lines [of str_f32 s "vertex_groups m" vs]
      build_global_uvs_take_pad [of "vertex_groups m" "length vs"]
    by simp
qed

theorem vt_lines_match_v_lines_witness:
  "length (uvs (grp short_uv_group)) \<noteq> length (vertices (grp short_uv_group))
   \<and> group_uvs short_uv_group = [(0, 0), (0, 0), (0, 0)]
   \<and> obj_lines (\<lambda>x. ''0.0'') False [short_uv_group] [(0, 0, 0), (0, 0, 0), (0, 0, 0)] =
       [''v 0.0 0.0 0.0'', ''v 0.0 0.0 0.0'', ''v 0.0 0.0 0.0'',
        ''vt 0 0'', ''vt 0 0'', ''vt 0 0'', ''f 1/1 2/2 3/3'']
   \<and> length (filter is_vt_line
        (obj_lines (\<lambda>x. ''0.0'') False [short_uv_group] [(0, 0, 0), (0, 0, 0), (0, 0, 0)])) = 3"
proof -
  have d: "length (uvs (grp short_uv_group)) \<noteq> length (vertices (grp short_uv_group))"
    by (simp add: short_uv_group_def scenario_group_def)
  have n: "str_int 0 = ''0''" "str_int 1 = ''1''" "str_int 2 = ''2''" "str_int 3 = ''3''"
    by (simp_all add: str_int_def str_nat.simps [of 0] str_nat.simps [of "Suc 0"] str_nat.simps [of 2]
        str_nat.simps [of 3] digit_char_def)
  let ?m = "\<lparr> vertex_groups = [short_uv_group], parser_vertices = [(0, 0, 0), (0, 0, 0), (0, 0, 0)] \<rparr>"
  from vt_lines_match_v_lines [of "\<lambda>x. ''0.0''" False ?m "[(0, 0, 0), (0, 0, 0), (0, 0, 0)]" short_uv_group]
  have c: "length (filter is_vt_line
        (obj_lines (\<lambda>x. ''0.0'') False [short_uv_group] [(0, 0, 0), (0, 0, 0), (0, 0, 0)])) = 3"
    and g: "group_uvs short_uv_group = replicate (length (vertices (grp short_uv_group))) (0, 0)"
    using d by simp_all
  from g have g': "group_uvs short_uv_group = [(0, 0), (0, 0), (0, 0)]"
    by (simp add: short_uv_group_def scenario_group_def numeral_3_eq_3)
  have l: "obj_lines (\<lambda>x. ''0.0'') False [short_uv_group] [(0, 0, 0), (0, 0, 0), (0, 0, 0)] =
       [''v 0.0 0.0 0.0'', ''v 0.0 0.0 0.0'', ''v 0.0 0.0 0.0'',
        ''vt 0 0'', ''vt 0 0'', ''vt 0 0'', ''f 1/1 2/2 3/3'']"
  proof -
    have u: "build_global_uvs [short_uv_group] (length [(0, 0, 0), (0, 0, 0), (0 :: int, 0 :: int, 0 :: int)])
        = [(0, 0), (0, 0), (0, 0)]"
      unfolding build_global_uvs_def by (simp add: g' Let_def)
    have f: "mesh_active_faces short_uv_group = [(0, 1, 2)]"
      by (simp add: short_uv_group_def)
    show ?thesis
      unfolding obj_lines_def u
      by (simp add: f v_line_def vt_line_def f_line_def n scaled_def)
  qed
  from d g' l c show ?thesis by blast
qed

subsection \<open>Order of the groups\<close>

lemma ordered_from_mono: "ordered_from c gs \<Longrightarrow> c' \<le> c \<Longrightarrow> ordered_from c' gs"
  by (cases gs) simp_all

lemma loop_ordered:
  "find_vertex_patterns_loop data i groups = Inr gs \<Longrightarrow>
   \<exists>new. gs = groups @ new \<and> ordered_from (int i) new"
proof (induction data i groups rule: find_vertex_patterns_loop.induct)
  case (1 data i groups)
  show ?case
  proof (cases "int i < int (length data) - 4")
    case False
    with "1.prems" show ?thesis by (simp add: loop_stop)
  next
    case True
    show ?thesis
    proof (cases "for_patterns data i patterns")
      case Skip
      with True "1.prems" have "find_vertex_patterns_loop data (i + 1) groups = Inr gs"
        by (simp add: loop_skip)
      from "1.IH"(1) [OF True Skip this] obtain new where
        "gs = groups @ new" "ordered_from (int (i + 1)) new" by blast
      moreover from this have "ordered_from (int i) new"
        using ordered_from_mono [of "int (i + 1)" new "int i"] by simp
      ultimately show ?thesis by blast
    next
      case (Fail e)
      with True "1.prems" show ?thesis by (simp add: loop_fail)
    next
      case (Accept g i')
      with True "1.prems" have "find_vertex_patterns_loop data i' (groups @ [g]) = Inr gs"
        by (simp add: loop_accept)
      from "1.IH"(2) [OF True Accept this] obtain new where
        gs: "gs = (groups @ [g]) @ new" and new: "ordered_from (int i') new" by blast
      from accepted_group_ok [OF Accept] have "start g = i" "int i' = cursor_after g"
        unfolding group_ok_def by simp_all
      moreover from accept_progress [OF Accept] have "int i + 8 \<le> int i'" by simp
      ultimately have "ordered_from (int i) (g # new)" using new by simp
      with gs show ?thesis by (intro exI [of _ "g # new"]) simp
    qed
  qed
qed

lemma scan_ordered: "find_vertex_patterns data = Inr gs \<Longrightarrow> ordered_from 0 gs"
  using loop_ordered [of data 0 "[]" gs] by (simp add: find_vertex_patterns_def)

lemma cursor_after_padding:
  "2 \<le> XX g \<Longrightarrow> int (faces_offset g) + 4 + 6 + 3 * (int (XX g) - 2) = cursor_after g"
  "int (faces_offset g) + 4 \<le> cursor_after g"
  unfolding cursor_after_def by simp_all

end
